theory Spec2Isabelle
  imports Main "HOL-Library.AList"
begin

section \<open>Data model\<close>

text \<open>
  Providers, values and dependency descriptions are opaque to the container: a provider is
  a hashable reference, a value is whatever a provider returns. A \<^verbatim>\<open>Dependant\<close> object is
  referred to by its identity (its equality class under \<^verbatim>\<open>==\<close> and \<^verbatim>\<open>hash\<close>), so that two
  parents can refer to the same description and a description can refer back to itself.
\<close>

type_synonym provider = nat
type_synonym val = nat
type_synonym node = nat

text \<open>
  The scope tag of \<^verbatim>\<open>anydep.models.Scope\<close>: \<^verbatim>\<open>False\<close> is \<open>Unscoped\<close>, \<^verbatim>\<open>None\<close> is \<open>Inherit\<close>,
  any other hashable is a concrete scope id.
\<close>

datatype scope = Unscoped | Inherit | ScopeId nat

text \<open>
  The fields of a \<^verbatim>\<open>Dependant\<close> that the container reads. \<^verbatim>\<open>dependencies\<close> is a
  dictionary from parameter names to descriptions, kept in its iteration order.
\<close>

record dependant =
  call :: provider
  dependencies :: "(string \<times> node) list"
  scope :: scope

text \<open>The store of \<^verbatim>\<open>Dependant\<close> objects: node \<open>n\<close> is \<open>g ! n\<close>.\<close>

type_synonym graph = "dependant list"

definition wf_graph :: "graph \<Rightarrow> bool" where
  "wf_graph g \<longleftrightarrow> list_all (\<lambda>d. list_all (\<lambda>kn. snd kn < length g) (dependencies d)) g"

text \<open>
  The exceptions. \<open>ProviderError p\<close> is an \<^verbatim>\<open>Exception\<close> raised by the code of provider \<open>p\<close>,
  \<open>ApplicationError\<close> one raised by the application. \<open>CancelledError\<close> stands for the
  exceptions that derive from \<^verbatim>\<open>BaseException\<close> but not from \<^verbatim>\<open>Exception\<close>: the cancellation
  of the running task, \<^verbatim>\<open>KeyboardInterrupt\<close>, \<^verbatim>\<open>SystemExit\<close>. An \<^verbatim>\<open>except Exception\<close> clause
  catches every exception but these.
\<close>

datatype error =
    CircularDependencyError
  | DuplicateScopeError
  | UnknownScopeError
  | IndexError
  | KeyError
  | RuntimeError
  | ProviderError provider
  | ApplicationError
  | CancelledError
  | OutOfFuel

definition is_exception :: "error \<Rightarrow> bool" where
  "is_exception e \<longleftrightarrow> e \<noteq> CancelledError"

text \<open>
  What a run leaves behind besides the container state, in the order it happens: every
  invocation of a provider, every registration of a guard's exit on the exit stack of a
  scope, and every call of such an exit.
\<close>

datatype event = Call provider | Push scope provider | Exit provider

text \<open>
  \<^verbatim>\<open>ContainerState\<close>. An \<^verbatim>\<open>AsyncExitStack\<close> is the list of the guards whose teardown is
  pending, the most recently entered first. \<open>trace\<close> is not a field of the source: it
  records the observable events.
\<close>

record container_state =
  binds :: "provider \<rightharpoonup> node"
  cached_values :: "scope \<rightharpoonup> (provider \<rightharpoonup> val)"
  stacks :: "scope \<rightharpoonup> provider list"
  scopes :: "scope list"
  trace :: "event list"

definition init_state :: container_state where
  "init_state = \<lparr>binds = Map.empty, cached_values = Map.empty, stacks = Map.empty,
     scopes = [], trace = []\<rparr>"

section \<open>Scope resolution\<close>

definition resolve_scope :: "container_state \<Rightarrow> scope \<Rightarrow> error + scope" where
  "resolve_scope st dependant_scope =
     (if dependant_scope = Unscoped then Inr Unscoped
      else if dependant_scope = Inherit then
        (if length (scopes st) = 0 then Inl UnknownScopeError
         else Inr (last (scopes st)))
      else Inr dependant_scope)"

definition check_scope :: "container_state \<Rightarrow> scope \<Rightarrow> error + unit" where
  "check_scope st sc =
     (if sc = Unscoped then Inr ()
      else if sc \<notin> dom (stacks st) then Inl UnknownScopeError
      else Inr ())"

section \<open>Providers and the call adapter\<close>

text \<open>
  The container never looks inside a provider. What it needs from outside is collected
  here: the classifier of \<^verbatim>\<open>anydep.inspect\<close> (five predicates on a provider reference),
  what an invocation of a provider returns, and how the teardown of a resource guard
  ends. \<open>returns env p k kwargs\<close> is the outcome of invoking \<open>p\<close> with the keyword
  arguments \<open>kwargs\<close> when it has been invoked \<open>k\<close> times before: \<open>None\<close> when it raises.
  A provider that raises does so with an \<^verbatim>\<open>Exception\<close> of its own, or, if \<open>cancelled env p\<close>,
  with an exception that is not an \<^verbatim>\<open>Exception\<close> (it was cancelled or interrupted). For a
  provider that is a context manager class, \<open>enter_raises env p\<close> tells where a failing
  acquisition fails: in \<^verbatim>\<open>__enter__\<close>, or already in the constructor.
  \<open>exit_outcome env p pending\<close> is how the teardown of \<open>p\<close> ends, given whether an exception
  is being propagated.
\<close>

datatype exit_result = ExitFalse | ExitTrue | ExitRaises

record env =
  is_async_context_manager :: "provider \<Rightarrow> bool"
  is_context_manager :: "provider \<Rightarrow> bool"
  is_async_gen_callable :: "provider \<Rightarrow> bool"
  is_gen_callable :: "provider \<Rightarrow> bool"
  is_coroutine_callable :: "provider \<Rightarrow> bool"
  returns :: "provider \<Rightarrow> nat \<Rightarrow> (string \<times> val) list \<Rightarrow> val option"
  cancelled :: "provider \<Rightarrow> bool"
  enter_raises :: "provider \<Rightarrow> bool"
  exit_outcome :: "provider \<Rightarrow> bool \<Rightarrow> exit_result"

text \<open>
  The uniform asynchronous callable that \<^verbatim>\<open>wrap_call\<close> returns. A bound context manager
  remembers the exit stack it was bound to, named here by the scope that owns the stack.
  \<open>Retrieve\<close> is the closure of \<^verbatim>\<open>_task_from_cached_value\<close>.
\<close>

datatype acall =
    Retrieve val
  | AsIs provider
  | InThreadPool provider
  | BoundAsync provider scope
  | BoundSyncCM provider scope
  | BoundSyncGen provider scope

definition wrap_call :: "env \<Rightarrow> provider \<Rightarrow> scope \<Rightarrow> acall" where
  "wrap_call env c stack =
     (if is_async_context_manager env c then BoundAsync c stack
      else if is_context_manager env c then BoundSyncCM c stack
      else if is_async_gen_callable env c then BoundAsync c stack
      else if is_gen_callable env c then BoundSyncGen c stack
      else if \<not> is_coroutine_callable env c then InThreadPool c
      else AsIs c)"

definition run_provider ::
  "env \<Rightarrow> provider \<Rightarrow> (string \<times> val) list \<Rightarrow> container_state \<Rightarrow> (error + val) \<times> container_state" where
  "run_provider env p kwargs st =
     (let st1 = st\<lparr>trace := trace st @ [Call p]\<rparr>
      in case returns env p (count_list (trace st) (Call p)) kwargs of
           Some v \<Rightarrow> (Inr v, st1)
         | None \<Rightarrow> (Inl (if cancelled env p then CancelledError else ProviderError p), st1))"

text \<open>\<^verbatim>\<open>AsyncExitStack.enter_async_context\<close> after a successful enter: the exit is pushed.\<close>

definition push_exit :: "scope \<Rightarrow> provider \<Rightarrow> container_state \<Rightarrow> container_state" where
  "push_exit stack p st =
     (case stacks st stack of
        Some cbs \<Rightarrow> st\<lparr>stacks := (stacks st)(stack \<mapsto> p # cbs),
                       trace := trace st @ [Push stack p]\<rparr>
      | None \<Rightarrow> st)"

text \<open>
  \<^verbatim>\<open>bind_async_context_manager\<close>: the guard is entered against the stack, and registered
  there only if entering succeeds.
\<close>

definition bind_async_context_manager ::
  "env \<Rightarrow> provider \<Rightarrow> scope \<Rightarrow> (string \<times> val) list \<Rightarrow> container_state
    \<Rightarrow> (error + val) \<times> container_state" where
  "bind_async_context_manager env p stack kwargs st =
     (case run_provider env p kwargs st of
        (Inl e, st1) \<Rightarrow> (Inl e, st1)
      | (Inr v, st1) \<Rightarrow> (Inr v, push_exit stack p st1))"

text \<open>
  \<^verbatim>\<open>context_manager_in_threadpool\<close>, entered against the stack. The constructor call of
  line 44 is outside the \<^verbatim>\<open>try\<close>: when it raises, nothing else happens. \<^verbatim>\<open>__enter__\<close> is
  inside the same \<^verbatim>\<open>try\<close> as the \<^verbatim>\<open>yield\<close>: when it raises an \<^verbatim>\<open>Exception\<close>, \<^verbatim>\<open>__exit__\<close>
  is called at once, and an exit that returns true leaves the generator without a yield
  (a \<^verbatim>\<open>RuntimeError\<close>). An exception that is not an \<^verbatim>\<open>Exception\<close> passes the
  \<^verbatim>\<open>except Exception\<close> clause and no exit is called.
\<close>

definition context_manager_in_threadpool ::
  "env \<Rightarrow> provider \<Rightarrow> scope \<Rightarrow> (string \<times> val) list \<Rightarrow> container_state
    \<Rightarrow> (error + val) \<times> container_state" where
  "context_manager_in_threadpool env p stack kwargs st =
     (case run_provider env p kwargs st of
        (Inr v, st1) \<Rightarrow> (Inr v, push_exit stack p st1)
      | (Inl e, st1) \<Rightarrow>
          if enter_raises env p \<and> is_exception e then
            (let st2 = st1\<lparr>trace := trace st1 @ [Exit p]\<rparr>
             in case exit_outcome env p True of
                  ExitRaises \<Rightarrow> (Inl (ProviderError p), st2)
                | ExitTrue \<Rightarrow> (Inl RuntimeError, st2)
                | ExitFalse \<Rightarrow> (Inl e, st2))
          else (Inl e, st1))"

text \<open>
  The adapted calls. A generator function \<open>p\<close> is wrapped by \<^verbatim>\<open>contextlib.contextmanager\<close>
  before it goes through \<^verbatim>\<open>context_manager_in_threadpool\<close>: its constructor only creates the
  generator, and the \<^verbatim>\<open>__exit__\<close> that is called when \<^verbatim>\<open>__enter__\<close> has raised finds the
  generator finished, runs no code of \<open>p\<close> and returns false, so that the exception of
  \<open>p\<close> is raised again. Entering it is therefore what \<open>bind_async_context_manager\<close> does.
\<close>

fun invoke ::
  "env \<Rightarrow> acall \<Rightarrow> (string \<times> val) list \<Rightarrow> container_state \<Rightarrow> (error + val) \<times> container_state" where
  "invoke env (Retrieve v) kwargs st = (Inr v, st)"
| "invoke env (AsIs p) kwargs st = run_provider env p kwargs st"
| "invoke env (InThreadPool p) kwargs st = run_provider env p kwargs st"
| "invoke env (BoundAsync p stack) kwargs st = bind_async_context_manager env p stack kwargs st"
| "invoke env (BoundSyncCM p stack) kwargs st = context_manager_in_threadpool env p stack kwargs st"
| "invoke env (BoundSyncGen p stack) kwargs st = bind_async_context_manager env p stack kwargs st"

section \<open>Tasks\<close>

text \<open>
  A \<^verbatim>\<open>Task\<close> object. Its fields never change after construction except \<^verbatim>\<open>_result\<close>, so
  the object is its fields together with an identity \<open>t_id\<close>; the \<^verbatim>\<open>_result\<close> slots of
  all tasks of one \<^verbatim>\<open>execute\<close> call are a map from identities to values.
\<close>

datatype task =
  Task (t_id: nat) (t_dependant: node) (t_scope: scope) (t_call: acall)
    (t_dependencies: "(string \<times> task) list")

type_synonym run_state = "(nat \<rightharpoonup> val) \<times> container_state"

text \<open>
  \<^verbatim>\<open>Task.result\<close>. The task group starts the result of every sub-task (\<open>start_all\<close>),
  then every value is awaited again by parameter name (\<open>await_all\<close>) and the call is
  invoked with them. The task group runs its children concurrently; a state-passing
  function runs one schedule, and the one chosen here is that the children run to their
  end one after the other in dictionary order, and that the first failure cancels the
  children that have not started. Under another schedule the events of sibling sub-tasks
  are interleaved, and a sibling may still acquire its guard after the failure. Whatever
  is proved below about the outcome of a failing \<open>result\<close> is proved of this schedule; the
  properties of the exit of a scope are stated for an arbitrary body and rely only on
  what the body has registered, not on the order in which it did.
\<close>

fun result :: "env \<Rightarrow> task \<Rightarrow> run_state \<Rightarrow> (error + val) \<times> run_state"
  and start_all :: "env \<Rightarrow> (string \<times> task) list \<Rightarrow> run_state \<Rightarrow> (error + unit) \<times> run_state"
  and await_all ::
    "env \<Rightarrow> (string \<times> task) list \<Rightarrow> run_state \<Rightarrow> (error + (string \<times> val) list) \<times> run_state"
where
  "result env (Task i d sc c deps) rs =
     (case fst rs i of
        Some v \<Rightarrow> (Inr v, rs)
      | None \<Rightarrow>
          (case start_all env deps rs of
             (Inl e, rs1) \<Rightarrow> (Inl e, rs1)
           | (Inr u, rs1) \<Rightarrow>
               (case await_all env deps rs1 of
                  (Inl e, rs2) \<Rightarrow> (Inl e, rs2)
                | (Inr values, rs2) \<Rightarrow>
                    (case invoke env c values (snd rs2) of
                       (Inl e, st3) \<Rightarrow> (Inl e, (fst rs2, st3))
                     | (Inr v, st3) \<Rightarrow> (Inr v, ((fst rs2)(i \<mapsto> v), st3))))))"
| "start_all env [] rs = (Inr (), rs)"
| "start_all env (kt # rest) rs =
     (case result env (snd kt) rs of
        (Inl e, rs1) \<Rightarrow> (Inl e, rs1)
      | (Inr v, rs1) \<Rightarrow> start_all env rest rs1)"
| "await_all env [] rs = (Inr [], rs)"
| "await_all env (kt # rest) rs =
     (case result env (snd kt) rs of
        (Inl e, rs1) \<Rightarrow> (Inl e, rs1)
      | (Inr v, rs1) \<Rightarrow>
          (case await_all env rest rs1 of
             (Inl e, rs2) \<Rightarrow> (Inl e, rs2)
           | (Inr values, rs2) \<Rightarrow> (Inr ((fst kt, v) # values), rs2)))"

section \<open>The graph builder\<close>

text \<open>
  The three per-invocation collections of \<^verbatim>\<open>_build_task\<close>. \<open>task_cache\<close> is a dictionary
  whose iteration order \<^verbatim>\<open>execute\<close> relies on, so it is an association list maintained by
  \<open>AList.update\<close>: a new key goes to the end, an old key keeps its place. \<open>next_id\<close> is the
  identity given to the next \<^verbatim>\<open>Task\<close> object.
\<close>

record build_state =
  task_cache :: "(node \<times> task) list"
  call_cache :: "provider \<rightharpoonup> node"
  seen :: "node set"
  next_id :: nat

definition empty_build :: build_state where
  "empty_build = \<lparr>task_cache = [], call_cache = Map.empty, seen = {}, next_id = 0\<rparr>"

text \<open>
  The stack argument of \<^verbatim>\<open>wrap_call\<close>:
  \<^verbatim>\<open>self.state.stacks[scope if scope is not False else self.state.scopes[-1]]\<close>.
\<close>

definition stack_for :: "container_state \<Rightarrow> scope \<Rightarrow> error + scope" where
  "stack_for st sc =
     (if sc \<noteq> Unscoped then
        (if sc \<in> dom (stacks st) then Inr sc else Inl KeyError)
      else if scopes st = [] then Inl IndexError
      else if last (scopes st) \<in> dom (stacks st) then Inr (last (scopes st))
      else Inl KeyError)"

text \<open>The search for a cached value, over \<^verbatim>\<open>reversed(self.state.scopes)\<close>.\<close>

fun find_cached :: "container_state \<Rightarrow> scope list \<Rightarrow> provider \<Rightarrow> error + val option" where
  "find_cached st [] c = Inr None"
| "find_cached st (cache_scope # rest) c =
     (case cached_values st cache_scope of
        None \<Rightarrow> Inl KeyError
      | Some cv \<Rightarrow>
          (case cv c of
             Some v \<Rightarrow> Inr (Some v)
           | None \<Rightarrow> find_cached st rest c))"

definition task_from_cached_value :: "nat \<Rightarrow> node \<Rightarrow> val \<Rightarrow> task" where
  "task_from_cached_value i d v = Task i d Unscoped (Retrieve v) []"

text \<open>Lines 166 to 173: the binding, then the canonical description of the provider.\<close>

definition substitute ::
  "graph \<Rightarrow> container_state \<Rightarrow> scope \<Rightarrow> node \<Rightarrow> build_state \<Rightarrow> node \<times> build_state" where
  "substitute g st sc d bs =
     (let d1 = (case binds st (call (g ! d)) of Some b \<Rightarrow> b | None \<Rightarrow> d)
      in if sc \<noteq> Unscoped then
           (case call_cache bs (call (g ! d1)) of
              Some c \<Rightarrow> (c, bs)
            | None \<Rightarrow> (d1, bs\<lparr>call_cache := (call_cache bs)(call (g ! d1) \<mapsto> d1)\<rparr>))
         else (d1, bs))"

text \<open>Lines 194 to 206: the task of a cached value if there is one, a new task otherwise.\<close>

definition finish_task ::
  "graph \<Rightarrow> container_state \<Rightarrow> node \<Rightarrow> scope \<Rightarrow> scope \<Rightarrow> acall \<Rightarrow> bool \<Rightarrow> (string \<times> task) list
    \<Rightarrow> build_state \<Rightarrow> error + bool \<times> task \<times> build_state" where
  "finish_task g st d sc task_scope c allow_cache subtasks bs =
     (case (if allow_cache \<and> sc \<noteq> Unscoped
            then find_cached st (rev (scopes st)) (call (g ! d)) else Inr None) of
        Inl e \<Rightarrow> Inl e
      | Inr (Some v) \<Rightarrow>
          (let t = task_from_cached_value (next_id bs) d v
           in Inr (True, t, bs\<lparr>task_cache := AList.update d t (task_cache bs),
                                next_id := Suc (next_id bs)\<rparr>))
      | Inr None \<Rightarrow>
          (let t = Task (next_id bs) d task_scope c subtasks
           in Inr (False, t, bs\<lparr>task_cache := AList.update d t (task_cache bs),
                                 next_id := Suc (next_id bs)\<rparr>)))"

text \<open>
  \<^verbatim>\<open>Container._build_task\<close>, and the loop over the sub-dependencies. The first argument
  bounds the depth of the recursion; \<open>build\<close> below starts it with more than the number of
  descriptions in the store, which is never used up (\<open>build_never_out_of_fuel\<close>).
\<close>

fun build_task ::
    "nat \<Rightarrow> env \<Rightarrow> graph \<Rightarrow> container_state \<Rightarrow> node \<Rightarrow> build_state
      \<Rightarrow> error + bool \<times> task \<times> build_state"
  and build_subtasks ::
    "nat \<Rightarrow> env \<Rightarrow> graph \<Rightarrow> container_state \<Rightarrow> (string \<times> node) list \<Rightarrow> bool
      \<Rightarrow> (string \<times> task) list \<Rightarrow> build_state
      \<Rightarrow> error + bool \<times> (string \<times> task) list \<times> build_state"
where
  "build_task 0 env g st d bs = Inl OutOfFuel"
| "build_task (Suc n) env g st d bs =
     (if d \<in> seen bs then Inl CircularDependencyError
      else
        (case resolve_scope st (scope (g ! d)) of
           Inl e \<Rightarrow> Inl e
         | Inr task_scope \<Rightarrow>
             (case substitute g st task_scope d (bs\<lparr>seen := insert d (seen bs)\<rparr>) of
                (d2, bs2) \<Rightarrow>
                  (case map_of (task_cache bs2) d2 of
                     Some t \<Rightarrow> Inr (True, t, bs2)
                   | None \<Rightarrow>
                       (case resolve_scope st (scope (g ! d2)) of
                          Inl e \<Rightarrow> Inl e
                        | Inr sc \<Rightarrow>
                            (case check_scope st sc of
                               Inl e \<Rightarrow> Inl e
                             | Inr u \<Rightarrow>
                                 (case stack_for st sc of
                                    Inl e \<Rightarrow> Inl e
                                  | Inr stack \<Rightarrow>
                                      (case build_subtasks n env g st (dependencies (g ! d2))
                                              True [] bs2 of
                                         Inl e \<Rightarrow> Inl e
                                       | Inr (allow_cache, subtasks, bs3) \<Rightarrow>
                                           finish_task g st d2 sc task_scope
                                             (wrap_call env (call (g ! d2)) stack)
                                             allow_cache subtasks bs3))))))))"
| "build_subtasks n env g st [] allow_cache subtasks bs = Inr (allow_cache, subtasks, bs)"
| "build_subtasks n env g st (item # rest) allow_cache subtasks bs =
     (case build_task n env g st (snd item) bs of
        Inl e \<Rightarrow> Inl e
      | Inr (allow_cache', subtask, bs1) \<Rightarrow>
          build_subtasks n env g st rest allow_cache'
            (AList.update (fst item) subtask subtasks)
            (bs1\<lparr>task_cache := AList.update (snd item) subtask (task_cache bs1)\<rparr>))"

definition build ::
  "env \<Rightarrow> graph \<Rightarrow> container_state \<Rightarrow> node \<Rightarrow> error + bool \<times> task \<times> build_state" where
  "build env g st d = build_task (Suc (length g)) env g st d empty_build"

section \<open>The container\<close>

text \<open>
  \<^verbatim>\<open>Container.bind\<close>. The third argument is the \<^verbatim>\<open>Dependant(source)\<close> object that the
  method constructs (the constructor is in \<^verbatim>\<open>anydep.models\<close>): a node of the store whose
  \<open>call\<close> is the source provider.
\<close>

definition bind :: "container_state \<Rightarrow> provider \<Rightarrow> node \<Rightarrow> container_state" where
  "bind st target source_dependant =
     st\<lparr>binds := (binds st)(target \<mapsto> source_dependant),
        cached_values := (\<lambda>s. map_option (\<lambda>cv. cv(target := None)) (cached_values st s))\<rparr>"

text \<open>\<^verbatim>\<open>self.state.cached_values[scope][provider] = value\<close>\<close>

definition store_cached :: "container_state \<Rightarrow> scope \<Rightarrow> provider \<Rightarrow> val \<Rightarrow> error + container_state" where
  "store_cached st sc c v =
     (case cached_values st sc of
        None \<Rightarrow> Inl KeyError
      | Some cv \<Rightarrow> Inr (st\<lparr>cached_values := (cached_values st)(sc \<mapsto> cv(c \<mapsto> v))\<rparr>))"

text \<open>The loop of \<^verbatim>\<open>execute\<close> over \<^verbatim>\<open>task_cache.values()\<close>.\<close>

fun cache_results :: "env \<Rightarrow> graph \<Rightarrow> task list \<Rightarrow> run_state \<Rightarrow> (error + unit) \<times> run_state" where
  "cache_results env g [] rs = (Inr (), rs)"
| "cache_results env g (subtask # rest) rs =
     (case resolve_scope (snd rs) (t_scope subtask) of
        Inl e \<Rightarrow> (Inl e, rs)
      | Inr sc \<Rightarrow>
          if sc \<noteq> Unscoped then
            (case result env subtask rs of
               (Inl e, rs1) \<Rightarrow> (Inl e, rs1)
             | (Inr v, rs1) \<Rightarrow>
                 (case store_cached (snd rs1) sc (call (g ! t_dependant subtask)) v of
                    Inl e \<Rightarrow> (Inl e, rs1)
                  | Inr st2 \<Rightarrow> cache_results env g rest (fst rs1, st2)))
          else cache_results env g rest rs)"

text \<open>
  \<^verbatim>\<open>Container.execute\<close> after the build: the result of the root task is awaited and
  stored, then the loop runs over the values of the task cache. The \<^verbatim>\<open>_result\<close> slots
  of the tasks are returned with the state.
\<close>

definition run_tasks ::
  "env \<Rightarrow> graph \<Rightarrow> task \<Rightarrow> task list \<Rightarrow> container_state \<Rightarrow> (error + val) \<times> run_state" where
  "run_tasks env g task subtasks st =
     (case result env task (Map.empty, st) of
        (Inl e, rs1) \<Rightarrow> (Inl e, rs1)
      | (Inr res, rs1) \<Rightarrow>
          (case resolve_scope (snd rs1) (t_scope task) of
             Inl e \<Rightarrow> (Inl e, rs1)
           | Inr sc \<Rightarrow>
               (case (if sc \<noteq> Unscoped
                      then store_cached (snd rs1) sc (call (g ! t_dependant task)) res
                      else Inr (snd rs1)) of
                  Inl e \<Rightarrow> (Inl e, rs1)
                | Inr st2 \<Rightarrow>
                    (case cache_results env g subtasks (fst rs1, st2) of
                       (Inl e, rs3) \<Rightarrow> (Inl e, rs3)
                     | (Inr u, rs3) \<Rightarrow> (Inr res, rs3)))))"

text \<open>
  \<^verbatim>\<open>Container.execute\<close>. A failure while building leaves the state as it was (the three
  collections are local); a failure later leaves what the providers did until then.
\<close>

definition execute ::
  "env \<Rightarrow> graph \<Rightarrow> node \<Rightarrow> container_state \<Rightarrow> (error + val) \<times> container_state" where
  "execute env g d st =
     (case build env g st d of
        Inl e \<Rightarrow> (Inl e, st)
      | Inr (hit, task, bs) \<Rightarrow>
          (case run_tasks env g task (map snd (task_cache bs)) st of
             (r, rs) \<Rightarrow> (r, snd rs)))"

section \<open>Scopes\<close>

text \<open>
  \<^verbatim>\<open>ContainerState.enter_scope\<close> up to its \<^verbatim>\<open>yield\<close>. The copy of the binding table has
  the content of the table it replaces.
\<close>

definition scope_entry :: "container_state \<Rightarrow> scope \<Rightarrow> error + container_state" where
  "scope_entry st sc =
     (if sc \<in> dom (stacks st) then Inl DuplicateScopeError
      else Inr (st\<lparr>scopes := scopes st @ [sc],
                   stacks := (stacks st)(sc \<mapsto> []),
                   cached_values := (cached_values st)(sc \<mapsto> Map.empty)\<rparr>))"

text \<open>
  The \<^verbatim>\<open>finally\<close> block: four statements, three of which raise on a missing entry.
\<close>

definition scope_finally ::
  "(provider \<rightharpoonup> node) \<Rightarrow> scope \<Rightarrow> container_state \<Rightarrow> error option \<times> container_state" where
  "scope_finally bound_providers sc st =
     (if sc \<notin> dom (stacks st) then (Some KeyError, st)
      else
        (let st1 = st\<lparr>stacks := (stacks st)(sc := None), binds := bound_providers\<rparr>
         in if sc \<notin> dom (cached_values st1) then (Some KeyError, st1)
            else
              (let st2 = st1\<lparr>cached_values := (cached_values st1)(sc := None)\<rparr>
               in if scopes st2 = [] then (Some IndexError, st2)
                  else (None, st2\<lparr>scopes := butlast (scopes st2)\<rparr>))))"

text \<open>
  The guards that \<^verbatim>\<open>wrap_call\<close> binds with \<^verbatim>\<open>bind_sync_context_manager\<close>: what is registered
  on the exit stack for them is the exit of the generator of
  \<^verbatim>\<open>context_manager_in_threadpool\<close>, which is suspended at its \<^verbatim>\<open>yield\<close>.
\<close>

definition sync_guard :: "env \<Rightarrow> provider \<Rightarrow> bool" where
  "sync_guard env p \<longleftrightarrow>
     \<not> is_async_context_manager env p
     \<and> (is_context_manager env p \<or> (\<not> is_async_gen_callable env p \<and> is_gen_callable env p))"

text \<open>
  Whether a registered exit, resumed with the exception \<open>pending\<close>, calls the exit of the
  guard itself. An asynchronous guard is its own exit. The generator of
  \<^verbatim>\<open>context_manager_in_threadpool\<close> calls \<^verbatim>\<open>__exit__\<close> in its \<^verbatim>\<open>except Exception\<close> clause and in
  its \<^verbatim>\<open>else\<close> clause: an exception that is not an \<^verbatim>\<open>Exception\<close> reaches neither and leaves
  the generator as it came.
\<close>

definition exit_called :: "env \<Rightarrow> provider \<Rightarrow> error option \<Rightarrow> bool" where
  "exit_called env p pending \<longleftrightarrow>
     \<not> (sync_guard env p \<and> (case pending of Some e \<Rightarrow> \<not> is_exception e | None \<Rightarrow> False))"

text \<open>
  \<^verbatim>\<open>AsyncExitStack.__aexit__\<close>: the registered exits are resumed last in, first out. An exit
  that raises replaces the exception being propagated, an exit that returns true clears
  it, and in either case the remaining exits are still resumed.
\<close>

fun unwind ::
  "env \<Rightarrow> provider list \<Rightarrow> error option \<Rightarrow> container_state \<Rightarrow> error option \<times> container_state" where
  "unwind env [] pending st = (pending, st)"
| "unwind env (p # cbs) pending st =
     (if exit_called env p pending then
        (case exit_outcome env p (pending \<noteq> None) of
           ExitRaises \<Rightarrow>
             unwind env cbs (Some (ProviderError p)) (st\<lparr>trace := trace st @ [Exit p]\<rparr>)
         | ExitTrue \<Rightarrow> unwind env cbs None (st\<lparr>trace := trace st @ [Exit p]\<rparr>)
         | ExitFalse \<Rightarrow> unwind env cbs pending (st\<lparr>trace := trace st @ [Exit p]\<rparr>))
      else unwind env cbs pending st)"

text \<open>
  Leaving the scope with the outcome \<open>r\<close> of the body: the \<^verbatim>\<open>finally\<close> block, then the exit
  stack that the scope owned.
\<close>

definition scope_exit ::
  "env \<Rightarrow> (provider \<rightharpoonup> node) \<Rightarrow> scope \<Rightarrow> error + unit \<Rightarrow> container_state
    \<Rightarrow> (error + unit) \<times> container_state" where
  "scope_exit env bound_providers sc r st =
     (let stack = (case stacks st sc of Some cbs \<Rightarrow> cbs | None \<Rightarrow> []);
          fin = scope_finally bound_providers sc st;
          pending = (case fst fin of
                       Some e \<Rightarrow> Some e
                     | None \<Rightarrow> (case r of Inl e \<Rightarrow> Some e | Inr u \<Rightarrow> None))
      in case unwind env stack pending (snd fin) of
           (Some e, st') \<Rightarrow> (Inl e, st')
         | (None, st') \<Rightarrow> (Inr (), st'))"

definition enter_scope ::
  "env \<Rightarrow> container_state \<Rightarrow> scope \<Rightarrow> (container_state \<Rightarrow> (error + unit) \<times> container_state)
    \<Rightarrow> (error + unit) \<times> container_state" where
  "enter_scope env st sc body =
     (case scope_entry st sc of
        Inl e \<Rightarrow> (Inl e, st)
      | Inr st1 \<Rightarrow> scope_exit env (binds st) sc (fst (body st1)) (snd (body st1)))"

section \<open>Client programs\<close>

text \<open>
  What application code does with a container: it binds, it executes, it raises an
  exception of its own, it is cancelled or interrupted, and it runs a block inside
  \<^verbatim>\<open>enter_global_scope\<close>.
\<close>

datatype cmd =
    DoBind provider node
  | DoExecute node
  | DoRaise
  | DoCancel
  | InScope scope "cmd list"

fun run :: "env \<Rightarrow> graph \<Rightarrow> cmd \<Rightarrow> container_state \<Rightarrow> (error + unit) \<times> container_state"
  and run_all :: "env \<Rightarrow> graph \<Rightarrow> cmd list \<Rightarrow> container_state \<Rightarrow> (error + unit) \<times> container_state"
where
  "run env g (DoBind target source_dependant) st = (Inr (), bind st target source_dependant)"
| "run env g (DoExecute d) st =
     (case execute env g d st of
        (Inl e, st1) \<Rightarrow> (Inl e, st1)
      | (Inr v, st1) \<Rightarrow> (Inr (), st1))"
| "run env g DoRaise st = (Inl ApplicationError, st)"
| "run env g DoCancel st = (Inl CancelledError, st)"
| "run env g (InScope sc body) st =
     (case scope_entry st sc of
        Inl e \<Rightarrow> (Inl e, st)
      | Inr st1 \<Rightarrow>
          (case run_all env g body st1 of
             (r, st2) \<Rightarrow> scope_exit env (binds st) sc r st2))"
| "run_all env g [] st = (Inr (), st)"
| "run_all env g (c # cs) st =
     (case run env g c st of
        (Inl e, st1) \<Rightarrow> (Inl e, st1)
      | (Inr u, st1) \<Rightarrow> run_all env g cs st1)"

section \<open>Relating the state before and after a run\<close>

text \<open>The guards registered on the exit stack of a scope by a piece of the trace.\<close>

fun registered :: "scope \<Rightarrow> event list \<Rightarrow> provider list" where
  "registered sc [] = []"
| "registered sc (Call p # evs) = registered sc evs"
| "registered sc (Push s p # evs) = (if s = sc then p # registered sc evs else registered sc evs)"
| "registered sc (Exit p # evs) = registered sc evs"

text \<open>
  \<open>evolves st st'\<close>: the scope stack and the sets of cache buckets are the same, the trace
  has grown by some events, and every exit stack has grown by exactly the guards that
  these events registered on it, the latest on top.
\<close>

text \<open>
  The guards of an exit stack whose own exit is called when the stack is unwound with the
  exception \<open>pending\<close>, in the order of the calls.
\<close>

fun exits_called :: "env \<Rightarrow> provider list \<Rightarrow> error option \<Rightarrow> provider list" where
  "exits_called env [] pending = []"
| "exits_called env (p # cbs) pending =
     (if exit_called env p pending then
        p # exits_called env cbs
              (case exit_outcome env p (pending \<noteq> None) of
                 ExitRaises \<Rightarrow> Some (ProviderError p)
               | ExitTrue \<Rightarrow> None
               | ExitFalse \<Rightarrow> pending)
      else exits_called env cbs pending)"

definition evolves :: "container_state \<Rightarrow> container_state \<Rightarrow> bool" where
  "evolves st st' \<longleftrightarrow>
     scopes st' = scopes st
     \<and> dom (cached_values st') = dom (cached_values st)
     \<and> (\<exists>evs. trace st' = trace st @ evs
            \<and> (\<forall>s. stacks st' s = map_option (\<lambda>cbs. rev (registered s evs) @ cbs) (stacks st s)))"

section \<open>Example inputs\<close>

text \<open>
  An environment in which every provider is a coroutine function that returns a value
  telling which provider ran and how often it had run before.
\<close>

definition ex_env :: env where
  "ex_env = \<lparr>is_async_context_manager = (\<lambda>p. False), is_context_manager = (\<lambda>p. False),
     is_async_gen_callable = (\<lambda>p. False), is_gen_callable = (\<lambda>p. False),
     is_coroutine_callable = (\<lambda>p. True),
     returns = (\<lambda>p k kw. Some (100 * p + k)), cancelled = (\<lambda>p. False),
     enter_raises = (\<lambda>p. False), exit_outcome = (\<lambda>p b. ExitFalse)\<rparr>"

text \<open>The state inside \<^verbatim>\<open>enter_global_scope(1)\<close>, entered from the initial state.\<close>

definition app_state :: container_state where
  "app_state = \<lparr>binds = Map.empty, cached_values = [ScopeId 1 \<mapsto> Map.empty],
     stacks = [ScopeId 1 \<mapsto> []], scopes = [ScopeId 1], trace = []\<rparr>"

text \<open>A target provider 0 and the description of the source provider 1 bound to it.\<close>

definition bind_graph :: graph where
  "bind_graph = [\<lparr>call = 0, dependencies = [], scope = ScopeId 1\<rparr>,
                 \<lparr>call = 1, dependencies = [], scope = Inherit\<rparr>]"

definition cached_state :: container_state where
  "cached_state = app_state\<lparr>cached_values := [ScopeId 1 \<mapsto> [0 \<mapsto> 5, 2 \<mapsto> 7]]\<rparr>"

text \<open>
  An environment of resource generators: entering provider 3 fails, every other provider
  yields a value; no teardown raises or swallows an exception.
\<close>

definition guard_env :: env where
  "guard_env = \<lparr>is_async_context_manager = (\<lambda>p. False), is_context_manager = (\<lambda>p. False),
     is_async_gen_callable = (\<lambda>p. True), is_gen_callable = (\<lambda>p. False),
     is_coroutine_callable = (\<lambda>p. False),
     returns = (\<lambda>p k kw. if p = 3 then None else Some p), cancelled = (\<lambda>p. False),
     enter_raises = (\<lambda>p. False), exit_outcome = (\<lambda>p b. ExitFalse)\<rparr>"

text \<open>Three guards, tagged with the three kinds of scope tag.\<close>

definition guard_graph :: graph where
  "guard_graph = [\<lparr>call = 1, dependencies = [], scope = Inherit\<rparr>,
                  \<lparr>call = 2, dependencies = [], scope = ScopeId 1\<rparr>,
                  \<lparr>call = 3, dependencies = [], scope = Unscoped\<rparr>]"

text \<open>
  The same providers as context manager classes, entered through
  \<^verbatim>\<open>context_manager_in_threadpool\<close>.
\<close>

definition sync_env :: env where
  "sync_env = \<lparr>is_async_context_manager = (\<lambda>p. False), is_context_manager = (\<lambda>p. True),
     is_async_gen_callable = (\<lambda>p. False), is_gen_callable = (\<lambda>p. False),
     is_coroutine_callable = (\<lambda>p. False),
     returns = (\<lambda>p k kw. if p = 3 then None else Some p), cancelled = (\<lambda>p. False),
     enter_raises = (\<lambda>p. True), exit_outcome = (\<lambda>p b. ExitFalse)\<rparr>"

text \<open>A single provider without sub-dependencies, tagged Unscoped.\<close>

definition lone_graph :: graph where
  "lone_graph = [\<lparr>call = 0, dependencies = [], scope = Unscoped\<rparr>]"

text \<open>A provider tagged with scope 1 whose only sub-dependency is tagged Unscoped.\<close>

definition rerun_graph :: graph where
  "rerun_graph = [\<lparr>call = 0, dependencies = [(''u'', 1)], scope = ScopeId 1\<rparr>,
                  \<lparr>call = 1, dependencies = [], scope = Unscoped\<rparr>]"

text \<open>
  A diamond: description 0 depends on 1 and 2, which both depend on the one description 3.
  Every edge leads to a larger index, so there is no cycle.
\<close>

definition diamond :: graph where
  "diamond = [\<lparr>call = 0, dependencies = [(''b'', 1), (''c'', 2)], scope = Unscoped\<rparr>,
              \<lparr>call = 1, dependencies = [(''d'', 3)], scope = Unscoped\<rparr>,
              \<lparr>call = 2, dependencies = [(''d'', 3)], scope = Unscoped\<rparr>,
              \<lparr>call = 3, dependencies = [], scope = Unscoped\<rparr>]"

section \<open>Well-formed tasks\<close>

text \<open>
  The sub-tasks of a task are constructed before the task itself, so their identities are
  smaller.
\<close>

fun wf_task :: "task \<Rightarrow> bool" where
  "wf_task (Task i d sc c deps) = (\<forall>kt \<in> set deps. t_id (snd kt) < i \<and> wf_task (snd kt))"

text \<open>The tasks recorded in the task cache: what \<^verbatim>\<open>task_cache.values()\<close> iterates over.\<close>

definition cached_tasks :: "build_state \<Rightarrow> task set" where
  "cached_tasks bs = snd ` set (task_cache bs)"

definition tasks_ok :: "build_state \<Rightarrow> bool" where
  "tasks_ok bs \<longleftrightarrow> (\<forall>t \<in> cached_tasks bs. wf_task t \<and> t_id t < next_id bs)"

text \<open>
  A provider that inherits the current scope and depends on a provider tagged with scope 1.
\<close>

definition chain_graph :: graph where
  "chain_graph = [\<lparr>call = 0, dependencies = [(''a'', 1)], scope = Inherit\<rparr>,
                  \<lparr>call = 1, dependencies = [], scope = ScopeId 1\<rparr>]"

section \<open>Properties of scope resolution\<close>

lemma run_InScope:
  "run env g (InScope sc body) st = enter_scope env st sc (run_all env g body)"
  by (simp add: enter_scope_def split: sum.splits prod.splits)


text \<open>
  C7: \<open>resolve_scope\<close> maps the Unscoped tag to Unscoped and a concrete scope id to itself;
  the Inherit tag is mapped to the innermost active scope (the last entry of the scope
  stack), and fails with the unknown-scope error when no scope is active.
\<close>

theorem resolve_scope_spec:
  "resolve_scope st Unscoped = Inr Unscoped
   \<and> resolve_scope st (ScopeId i) = Inr (ScopeId i)
   \<and> (scopes st \<noteq> [] \<longrightarrow> resolve_scope st Inherit = Inr (last (scopes st)))
   \<and> (scopes st = [] \<longrightarrow> resolve_scope st Inherit = Inl UnknownScopeError)"
  by (simp add: resolve_scope_def)

theorem resolve_scope_spec_witness:
  "scopes (init_state\<lparr>scopes := [ScopeId 1, ScopeId 2]\<rparr>) \<noteq> []
   \<and> resolve_scope (init_state\<lparr>scopes := [ScopeId 1, ScopeId 2]\<rparr>) Inherit = Inr (ScopeId 2)
   \<and> scopes init_state = []
   \<and> resolve_scope init_state Inherit = Inl UnknownScopeError
   \<and> resolve_scope init_state Unscoped = Inr Unscoped
   \<and> resolve_scope init_state (ScopeId 7) = Inr (ScopeId 7)"
  using resolve_scope_spec [of "init_state\<lparr>scopes := [ScopeId 1, ScopeId 2]\<rparr>" 7]
    resolve_scope_spec [of init_state 7]
  by (simp add: init_state_def)

section \<open>The graph builder: basic facts\<close>

lemmas build_defs = build_def empty_build_def substitute_def resolve_scope_def check_scope_def
  stack_for_def finish_task_def task_from_cached_value_def wrap_call_def Let_def

lemma finish_task_dependant:
  "finish_task g st d sc task_scope c allow_cache subtasks bs = Inr (hit, t, bs')
    \<Longrightarrow> t_dependant t = d"
  by (auto simp: finish_task_def task_from_cached_value_def Let_def
      split: sum.splits option.splits if_splits)

lemma build_bound_root:
  assumes "binds st (call (g ! d)) = Some b"
    and "build env g st d = Inr (hit, t, bs)"
  shows "t_dependant t = b"
  using assms
  by (auto simp: build_def empty_build_def substitute_def Let_def
      split: sum.splits option.splits if_splits prod.splits dest: finish_task_dependant)

section \<open>Binding\<close>

text \<open>
  C8: \<open>bind st target src\<close> installs the override for \<open>target\<close> and leaves the other
  bindings alone; it keeps the set of cache buckets, removes the entry of \<open>target\<close> from
  every bucket and keeps every other entry; and afterwards a build of any description of
  \<open>target\<close> yields a task for the bound description \<open>src\<close>.
\<close>

theorem bind_spec:
  "binds (bind st target src) target = Some src
   \<and> (\<forall>c. c \<noteq> target \<longrightarrow> binds (bind st target src) c = binds st c)
   \<and> dom (cached_values (bind st target src)) = dom (cached_values st)
   \<and> (\<forall>s cv. cached_values (bind st target src) s = Some cv \<longrightarrow> cv target = None)
   \<and> (\<forall>s cv c. cached_values st s = Some cv \<longrightarrow> c \<noteq> target
         \<longrightarrow> (\<exists>cv'. cached_values (bind st target src) s = Some cv' \<and> cv' c = cv c))
   \<and> (\<forall>env g d hit t bs. call (g ! d) = target
         \<longrightarrow> build env g (bind st target src) d = Inr (hit, t, bs) \<longrightarrow> t_dependant t = src)"
proof -
  have b: "binds (bind st target src) target = Some src"
    by (simp add: bind_def)
  have "\<And>env g d hit t bs. call (g ! d) = target
      \<Longrightarrow> build env g (bind st target src) d = Inr (hit, t, bs) \<Longrightarrow> t_dependant t = src"
    using b build_bound_root by metis
  then show ?thesis
    by (auto simp: bind_def dom_def)
qed

theorem bind_spec_witness:
  "cached_values cached_state (ScopeId 1) = Some [0 \<mapsto> 5, 2 \<mapsto> 7]
   \<and> call (bind_graph ! 0) = 0
   \<and> (\<exists>bs. build ex_env bind_graph (bind cached_state 0 1) 0
          = Inr (False, Task 0 1 (ScopeId 1) (AsIs 1) [], bs))
   \<and> binds (bind cached_state 0 1) 0 = Some 1
   \<and> (\<exists>cv'. cached_values (bind cached_state 0 1) (ScopeId 1) = Some cv' \<and> cv' 0 = None
          \<and> cv' 2 = Some 7)
   \<and> fst (execute ex_env bind_graph 0 (bind cached_state 0 1)) = Inr 100"
proof -
  have c: "cached_values cached_state (ScopeId 1) = Some [0 \<mapsto> 5, 2 \<mapsto> 7]"
    by (simp add: cached_state_def app_state_def)
  have g: "call (bind_graph ! 0) = 0"
    by (simp add: bind_graph_def)
  have b: "\<exists>bs. build ex_env bind_graph (bind cached_state 0 1) 0
          = Inr (False, Task 0 1 (ScopeId 1) (AsIs 1) [], bs)"
    by (simp add: build_defs bind_def cached_state_def app_state_def bind_graph_def ex_env_def)
  have e: "fst (execute ex_env bind_graph 0 (bind cached_state 0 1)) = Inr 100"
    by code_simp
  from b obtain bs where b': "build ex_env bind_graph (bind cached_state 0 1) 0
          = Inr (False, Task 0 1 (ScopeId 1) (AsIs 1) [], bs)" by blast
  note s = bind_spec [of cached_state 0 1]
  note s1 = s [THEN conjunct1]
  note s4 = s [THEN conjunct2, THEN conjunct2, THEN conjunct2, THEN conjunct1, rule_format]
  note s5 = s [THEN conjunct2, THEN conjunct2, THEN conjunct2, THEN conjunct2, THEN conjunct1,
    rule_format]
  note s6 = s [THEN conjunct2, THEN conjunct2, THEN conjunct2, THEN conjunct2, THEN conjunct2,
    rule_format]
  from s5 [OF c, of 2] obtain cv' where
    cv: "cached_values (bind cached_state 0 1) (ScopeId 1) = Some cv'" "cv' 2 = Some 7"
    by auto
  from s4 [OF cv(1)] have "cv' 0 = None" .
  with cv have s2: "\<exists>cv'. cached_values (bind cached_state 0 1) (ScopeId 1) = Some cv'
      \<and> cv' 0 = None \<and> cv' 2 = Some 7"
    by blast
  from s6 [OF g b'] have "t_dependant (Task 0 1 (ScopeId 1) (AsIs 1) []) = 1" .
  with c g b e s1 s2 show ?thesis by blast
qed

section \<open>What a run changes\<close>

lemma registered_append: "registered sc (xs @ ys) = registered sc xs @ registered sc ys"
  by (induction sc xs rule: registered.induct) auto

lemma map_option_append_Nil [simp]: "map_option ((@) []) x = x"
  by (cases x) auto

lemma evolves_refl: "evolves st st"
  by (auto simp: evolves_def)

lemma evolves_trans:
  assumes "evolves a b" and "evolves b c"
  shows "evolves a c"
proof -
  from assms(1) obtain e1 where
    1: "trace b = trace a @ e1"
      "\<And>s. stacks b s = map_option (\<lambda>cbs. rev (registered s e1) @ cbs) (stacks a s)"
    by (auto simp: evolves_def)
  from assms(2) obtain e2 where
    2: "trace c = trace b @ e2"
      "\<And>s. stacks c s = map_option (\<lambda>cbs. rev (registered s e2) @ cbs) (stacks b s)"
    by (auto simp: evolves_def)
  have "trace c = trace a @ (e1 @ e2)"
    using 1(1) 2(1) by simp
  moreover have "\<And>s. stacks c s
      = map_option (\<lambda>cbs. rev (registered s (e1 @ e2)) @ cbs) (stacks a s)"
    by (simp add: 1(2) 2(2) registered_append option.map_comp comp_def)
  ultimately show ?thesis
    using assms by (auto simp: evolves_def)
qed

lemma evolves_events:
  assumes "scopes st' = scopes st" "cached_values st' = cached_values st"
    "stacks st' = stacks st" "trace st' = trace st @ evs" "\<And>s. registered s evs = []"
  shows "evolves st st'"
  unfolding evolves_def using assms
  by (auto simp: option.map_ident intro!: exI [of _ evs])

lemma run_provider_evolves: "evolves st (snd (run_provider env p kwargs st))"
  by (rule evolves_events [where evs = "[Call p]"])
     (auto simp: run_provider_def Let_def split: option.splits)

lemma run_provider_binds: "binds (snd (run_provider env p kwargs st)) = binds st"
  by (auto simp: run_provider_def Let_def split: option.splits)

lemma push_exit_evolves: "evolves st (push_exit stack p st)"
proof (cases "stacks st stack")
  case None
  then show ?thesis by (simp add: push_exit_def evolves_refl)
next
  case (Some cbs)
  then show ?thesis
    unfolding evolves_def push_exit_def
    by (auto intro!: exI [of _ "[Push stack p]"] simp: option.map_ident)
qed

lemma push_exit_binds: "binds (push_exit stack p st) = binds st"
  by (auto simp: push_exit_def split: option.splits)

lemma exit_event_evolves: "evolves st (st\<lparr>trace := trace st @ [Exit p]\<rparr>)"
  by (rule evolves_events [where evs = "[Exit p]"]) auto

lemma bind_async_context_manager_evolves:
  "evolves st (snd (bind_async_context_manager env p stack kwargs st))"
  using run_provider_evolves [of st env p kwargs]
  by (auto simp: bind_async_context_manager_def split: prod.splits sum.splits
      intro: evolves_trans push_exit_evolves)

lemma context_manager_in_threadpool_evolves:
  "evolves st (snd (context_manager_in_threadpool env p stack kwargs st))"
  using run_provider_evolves [of st env p kwargs]
  by (auto simp: context_manager_in_threadpool_def Let_def
      split: prod.splits sum.splits exit_result.splits if_splits
      intro: evolves_trans push_exit_evolves exit_event_evolves)

lemma invoke_evolves: "evolves st (snd (invoke env c kwargs st))"
  by (cases c)
     (simp_all add: evolves_refl run_provider_evolves bind_async_context_manager_evolves
       context_manager_in_threadpool_evolves)

lemma invoke_binds: "binds (snd (invoke env c kwargs st)) = binds st"
  by (cases c)
     (auto simp: run_provider_def bind_async_context_manager_def push_exit_def Let_def
       context_manager_in_threadpool_def split: option.splits prod.splits sum.splits
       exit_result.splits if_splits)

text \<open>
  Whatever relation between states is reflexive, transitive and established by every
  invocation of an adapted call is established by \<open>result\<close>.
\<close>

lemma result_relates:
  assumes refl: "\<And>st. R st st"
    and trans: "\<And>a b c. R a b \<Longrightarrow> R b c \<Longrightarrow> R a c"
    and inv: "\<And>env c kwargs st. R st (snd (invoke env c kwargs st))"
  shows "R (snd rs) (snd (snd (result env t rs)))"
    and "R (snd rs) (snd (snd (start_all env ts rs)))"
    and "R (snd rs) (snd (snd (await_all env ts rs)))"
proof (induction env t rs and env ts rs and env ts rs rule: result_start_all_await_all.induct)
  case (1 env i d sc c deps rs)
  show ?case
  proof (cases "fst rs i")
    case (Some v)
    then show ?thesis by (simp add: refl)
  next
    case None
    note n = None
    obtain r1 rs1 where s: "start_all env deps rs = (r1, rs1)" by (cases "start_all env deps rs")
    from "1.IH"(1) [OF n] s have e1: "R (snd rs) (snd rs1)" by simp
    show ?thesis
    proof (cases r1)
      case (Inl e)
      with n s e1 show ?thesis by simp
    next
      case (Inr u)
      note r1 = Inr
      obtain r2 rs2 where a: "await_all env deps rs1 = (r2, rs2)"
        by (cases "await_all env deps rs1")
      from "1.IH"(2) [OF n s [symmetric] r1] a have e2: "R (snd rs1) (snd rs2)"
        by simp
      from e1 e2 have e12: "R (snd rs) (snd rs2)" by (rule trans)
      show ?thesis
      proof (cases r2)
        case (Inl e)
        with n s r1 a e12 show ?thesis by simp
      next
        case (Inr vals)
        have "R (snd rs2) (snd (invoke env c vals (snd rs2)))"
          by (rule inv)
        with e12 have "R (snd rs) (snd (invoke env c vals (snd rs2)))"
          by (rule trans)
        with n s r1 a Inr show ?thesis
          by (auto split: prod.splits sum.splits)
      qed
    qed
  qed
next
  case (2 env rs)
  show ?case by (simp add: refl)
next
  case (3 env kt rest rs)
  obtain r1 rs1 where s: "result env (snd kt) rs = (r1, rs1)" by (cases "result env (snd kt) rs")
  from "3.IH"(1) s have e1: "R (snd rs) (snd rs1)" by simp
  show ?case
  proof (cases r1)
    case (Inl e)
    with s e1 show ?thesis by simp
  next
    case (Inr v)
    from "3.IH"(2) [OF s [symmetric] Inr]
    have "R (snd rs1) (snd (snd (start_all env rest rs1)))" .
    with e1 have "R (snd rs) (snd (snd (start_all env rest rs1)))" by (rule trans)
    with s Inr show ?thesis by simp
  qed
next
  case (4 env rs)
  show ?case by (simp add: refl)
next
  case (5 env kt rest rs)
  obtain r1 rs1 where s: "result env (snd kt) rs = (r1, rs1)" by (cases "result env (snd kt) rs")
  from "5.IH"(1) s have e1: "R (snd rs) (snd rs1)" by simp
  show ?case
  proof (cases r1)
    case (Inl e)
    with s e1 show ?thesis by simp
  next
    case (Inr v)
    from "5.IH"(2) [OF s [symmetric] Inr]
    have "R (snd rs1) (snd (snd (await_all env rest rs1)))" .
    with e1 have "R (snd rs) (snd (snd (await_all env rest rs1)))"
      by (rule trans)
    with s Inr show ?thesis by (auto split: prod.splits sum.splits)
  qed
qed

lemma store_cached_evolves: "store_cached st sc c v = Inr st' \<Longrightarrow> evolves st st'"
  by (auto simp: store_cached_def evolves_def split: option.splits if_splits)

lemma store_cached_binds: "store_cached st sc c v = Inr st' \<Longrightarrow> binds st' = binds st"
  by (auto simp: store_cached_def split: option.splits)

lemma cache_results_relates:
  assumes refl: "\<And>st. R st st"
    and trans: "\<And>a b c. R a b \<Longrightarrow> R b c \<Longrightarrow> R a c"
    and inv: "\<And>env c kwargs st. R st (snd (invoke env c kwargs st))"
    and store: "\<And>st sc c v st'. store_cached st sc c v = Inr st' \<Longrightarrow> R st st'"
  shows "R (snd rs) (snd (snd (cache_results env g ts rs)))"
proof (induction ts arbitrary: rs)
  case Nil
  show ?case by (simp add: refl)
next
  case (Cons subtask rest)
  show ?case
  proof (cases "resolve_scope (snd rs) (t_scope subtask)")
    case (Inl e)
    then show ?thesis by (simp add: refl)
  next
    case (Inr sc)
    note sc = Inr
    show ?thesis
    proof (cases "sc = Unscoped")
      case True
      with sc Cons.IH [of rs] show ?thesis by simp
    next
      case False
      obtain r1 rs1 where r: "result env subtask rs = (r1, rs1)"
        by (cases "result env subtask rs")
      from result_relates(1) [where R = R and env = env and rs = rs and t = subtask, OF refl trans inv] r
      have e1: "R (snd rs) (snd rs1)" by simp
      show ?thesis
      proof (cases r1)
        case (Inl e)
        with sc False r e1 show ?thesis by simp
      next
        case (Inr v)
        note v = Inr
        show ?thesis
        proof (cases "store_cached (snd rs1) sc (call (g ! t_dependant subtask)) v")
          case (Inl e)
          with sc False r v e1 show ?thesis by simp
        next
          case (Inr st2)
          from store [OF Inr] e1 have "R (snd rs) st2" by (blast intro: trans)
          moreover from Cons.IH [of "(fst rs1, st2)"]
          have "R st2 (snd (snd (cache_results env g rest (fst rs1, st2))))" by simp
          ultimately have "R (snd rs) (snd (snd (cache_results env g rest (fst rs1, st2))))"
            by (rule trans)
          with sc False r v Inr show ?thesis by simp
        qed
      qed
    qed
  qed
qed

lemma run_tasks_relates:
  assumes refl: "\<And>st. R st st"
    and trans: "\<And>a b c. R a b \<Longrightarrow> R b c \<Longrightarrow> R a c"
    and inv: "\<And>env c kwargs st. R st (snd (invoke env c kwargs st))"
    and store: "\<And>st sc c v st'. store_cached st sc c v = Inr st' \<Longrightarrow> R st st'"
  shows "R st (snd (snd (run_tasks env g task ts st)))"
proof -
  obtain r1 rs1 where r: "result env task (Map.empty, st) = (r1, rs1)"
    by (cases "result env task (Map.empty, st)")
  from result_relates(1) [where R = R and env = env and rs = "(Map.empty, st)" and t = task,
      OF refl trans inv] r
  have e1: "R st (snd rs1)" by simp
  show ?thesis
  proof (cases r1)
    case (Inl e)
    with r e1 show ?thesis by (simp add: run_tasks_def)
  next
    case (Inr res)
    note res = Inr
    show ?thesis
    proof (cases "resolve_scope (snd rs1) (t_scope task)")
      case (Inl e)
      with r res e1 show ?thesis by (simp add: run_tasks_def)
    next
      case (Inr sc)
      note sc = Inr
      define w where "w = (if sc \<noteq> Unscoped
                           then store_cached (snd rs1) sc (call (g ! t_dependant task)) res
                           else Inr (snd rs1))"
      show ?thesis
      proof (cases w)
        case (Inl e)
        with r res sc e1 show ?thesis by (simp add: run_tasks_def w_def)
      next
        case (Inr st2)
        then have "R (snd rs1) st2"
          by (auto simp: w_def refl store split: if_splits)
        with e1 have e2: "R st st2" by (rule trans)
        from cache_results_relates [where R = R and env = env and rs = "(fst rs1, st2)" and g = g
            and ts = ts, OF refl trans inv store]
        have "R st2 (snd (snd (cache_results env g ts (fst rs1, st2))))"
          by simp
        with e2 have e3: "R st (snd (snd (cache_results env g ts (fst rs1, st2))))"
          by (rule trans)
        obtain r3 rs3 where c: "cache_results env g ts (fst rs1, st2) = (r3, rs3)"
          by (cases "cache_results env g ts (fst rs1, st2)")
        with e3 have "R st (snd rs3)" by simp
        with r res sc Inr c show ?thesis
          by (cases r3) (simp_all add: run_tasks_def w_def [symmetric])
      qed
    qed
  qed
qed

lemma execute_relates:
  assumes refl: "\<And>st. R st st"
    and trans: "\<And>a b c. R a b \<Longrightarrow> R b c \<Longrightarrow> R a c"
    and inv: "\<And>env c kwargs st. R st (snd (invoke env c kwargs st))"
    and store: "\<And>st sc c v st'. store_cached st sc c v = Inr st' \<Longrightarrow> R st st'"
  shows "R st (snd (execute env g d st))"
proof (cases "build env g st d")
  case (Inl e)
  then show ?thesis by (simp add: execute_def refl)
next
  case (Inr b)
  then obtain hit task bs where b: "build env g st d = Inr (hit, task, bs)"
    by (cases b) auto
  from run_tasks_relates [where R = R, OF refl trans inv store]
  have "R st (snd (snd (run_tasks env g task (map snd (task_cache bs)) st)))" .
  with b show ?thesis by (auto simp: execute_def split: prod.splits)
qed

lemma execute_evolves: "evolves st (snd (execute env g d st))"
  by (rule execute_relates [where R = evolves])
     (auto intro: evolves_refl evolves_trans invoke_evolves store_cached_evolves)

lemma execute_binds: "binds (snd (execute env g d st)) = binds st"
  by (rule execute_relates [where R = "\<lambda>a b. binds b = binds a"])
     (auto simp: invoke_binds store_cached_binds)

section \<open>Scopes: entry and exit\<close>

lemma bind_evolves: "evolves st (bind st target src)"
  by (auto simp: evolves_def bind_def dom_def)

lemma registered_exits [simp]: "registered sc (map Exit ps) = []"
  by (induction ps) auto

lemma unwind_state:
  "snd (unwind env cbs pending st)
    = st\<lparr>trace := trace st @ map Exit (exits_called env cbs pending)\<rparr>"
  by (induction cbs arbitrary: pending st) (auto split: exit_result.splits)

text \<open>
  Every exit of the stack is called unless the stack is unwound with an exception that is
  not an \<^verbatim>\<open>Exception\<close> and holds a guard bound by \<^verbatim>\<open>bind_sync_context_manager\<close>.
\<close>

lemma exits_called_exception:
  "(\<forall>e. pending = Some e \<longrightarrow> is_exception e) \<Longrightarrow> exits_called env cbs pending = cbs"
  by (induction cbs arbitrary: pending)
     (auto simp: exit_called_def is_exception_def split: exit_result.splits option.splits)

lemma exits_called_async:
  "\<forall>p \<in> set cbs. \<not> sync_guard env p \<Longrightarrow> exits_called env cbs pending = cbs"
  by (induction cbs arbitrary: pending) (auto simp: exit_called_def)

lemma scope_finally_ok:
  assumes "sc \<in> dom (stacks st)" and "sc \<in> dom (cached_values st)" and "scopes st \<noteq> []"
  shows "scope_finally bound_providers sc st =
    (None, st\<lparr>stacks := (stacks st)(sc := None), binds := bound_providers,
               cached_values := (cached_values st)(sc := None),
               scopes := butlast (scopes st)\<rparr>)"
  using assms by (simp add: scope_finally_def Let_def)

lemma scope_exit_state:
  assumes "stacks st sc = Some cbs" and "sc \<in> dom (cached_values st)" and "scopes st \<noteq> []"
  shows "snd (scope_exit env bound_providers sc r st) =
    st\<lparr>stacks := (stacks st)(sc := None), binds := bound_providers,
       cached_values := (cached_values st)(sc := None),
       scopes := butlast (scopes st),
       trace := trace st @ map Exit (exits_called env cbs
         (case r of Inl e \<Rightarrow> Some e | Inr u \<Rightarrow> None))\<rparr>"
proof -
  from assms(1) have d: "sc \<in> dom (stacks st)" by auto
  have "snd (scope_exit env bound_providers sc r st)
      = snd (unwind env cbs
          (case r of Inl e \<Rightarrow> Some e | Inr u \<Rightarrow> None)
          (st\<lparr>stacks := (stacks st)(sc := None), binds := bound_providers,
               cached_values := (cached_values st)(sc := None),
               scopes := butlast (scopes st)\<rparr>))"
    by (simp add: scope_exit_def Let_def scope_finally_ok [OF d assms(2,3)] assms(1)
        split: prod.splits option.splits)
  then show ?thesis by (simp add: unwind_state)
qed

text \<open>
  Leaving a scope that was entered from \<open>st\<close>, after a body that has taken the entry
  state to \<open>st2\<close> in the sense of \<open>evolves\<close> and has ended with the outcome \<open>r\<close>.
\<close>

lemma scope_exit_after_body:
  assumes inv: "dom (cached_values st) = dom (stacks st)"
    and entry: "scope_entry st sc = Inr st1"
    and body: "evolves st1 st2"
  shows "\<exists>evs. trace st2 = trace st @ evs
      \<and> stacks st2 sc = Some (rev (registered sc evs))
      \<and> (\<forall>s. s \<noteq> sc \<longrightarrow> stacks st2 s
            = map_option (\<lambda>cbs. rev (registered s evs) @ cbs) (stacks st s))
      \<and> snd (scope_exit env (binds st) sc r st2) =
          st2\<lparr>stacks := (stacks st2)(sc := None), binds := binds st,
              cached_values := (cached_values st2)(sc := None),
              scopes := scopes st,
              trace := trace st2 @ map Exit (exits_called env (rev (registered sc evs))
                (case r of Inl e \<Rightarrow> Some e | Inr u \<Rightarrow> None))\<rparr>"
proof -
  from entry have fresh: "sc \<notin> dom (stacks st)"
    and st1: "st1 = st\<lparr>scopes := scopes st @ [sc], stacks := (stacks st)(sc \<mapsto> []),
                       cached_values := (cached_values st)(sc \<mapsto> Map.empty)\<rparr>"
    by (auto simp: scope_entry_def split: if_splits)
  from body obtain evs where
    tr: "trace st2 = trace st1 @ evs"
    and sk: "\<And>s. stacks st2 s = map_option (\<lambda>cbs. rev (registered s evs) @ cbs) (stacks st1 s)"
    and sc2: "scopes st2 = scopes st1"
    and cv2: "dom (cached_values st2) = dom (cached_values st1)"
    by (auto simp: evolves_def)
  from sk [of sc] st1 have top: "stacks st2 sc = Some (rev (registered sc evs))" by simp
  from cv2 st1 have "sc \<in> dom (cached_values st2)" by simp
  moreover from sc2 st1 have "scopes st2 \<noteq> []" and "butlast (scopes st2) = scopes st" by simp_all
  ultimately have "snd (scope_exit env (binds st) sc r st2) =
          st2\<lparr>stacks := (stacks st2)(sc := None), binds := binds st,
              cached_values := (cached_values st2)(sc := None),
              scopes := scopes st,
              trace := trace st2 @ map Exit (exits_called env (rev (registered sc evs))
                (case r of Inl e \<Rightarrow> Some e | Inr u \<Rightarrow> None))\<rparr>"
    using scope_exit_state [OF top, of env "binds st" r] by simp
  moreover from tr st1 have "trace st2 = trace st @ evs" by simp
  moreover have "\<forall>s. s \<noteq> sc \<longrightarrow> stacks st2 s
            = map_option (\<lambda>cbs. rev (registered s evs) @ cbs) (stacks st s)"
    using sk st1 by simp
  ultimately show ?thesis using top by blast
qed

lemma scope_exit_evolves:
  assumes inv: "dom (cached_values st) = dom (stacks st)"
    and entry: "scope_entry st sc = Inr st1"
    and body: "evolves st1 st2"
  shows "evolves st (snd (scope_exit env (binds st) sc r st2))"
proof -
  from entry have fresh: "sc \<notin> dom (stacks st)"
    and st1: "st1 = st\<lparr>scopes := scopes st @ [sc], stacks := (stacks st)(sc \<mapsto> []),
                       cached_values := (cached_values st)(sc \<mapsto> Map.empty)\<rparr>"
    by (auto simp: scope_entry_def split: if_splits)
  from body have cv2: "dom (cached_values st2) = dom (cached_values st1)"
    by (auto simp: evolves_def)
  define xs where "xs = (\<lambda>evs. exits_called env (rev (registered sc evs))
      (case r of Inl e \<Rightarrow> Some e | Inr u \<Rightarrow> None))"
  from scope_exit_after_body [OF assms, of env r] obtain evs where
    tr: "trace st2 = trace st @ evs"
    and others: "\<And>s. s \<noteq> sc \<Longrightarrow> stacks st2 s
            = map_option (\<lambda>cbs. rev (registered s evs) @ cbs) (stacks st s)"
    and ex: "snd (scope_exit env (binds st) sc r st2) =
          st2\<lparr>stacks := (stacks st2)(sc := None), binds := binds st,
              cached_values := (cached_values st2)(sc := None),
              scopes := scopes st, trace := trace st2 @ map Exit (xs evs)\<rparr>"
    unfolding xs_def by blast
  let ?evs = "evs @ map Exit (xs evs)"
  have "trace (snd (scope_exit env (binds st) sc r st2)) = trace st @ ?evs"
    by (simp add: ex tr)
  moreover have "\<And>s. stacks (snd (scope_exit env (binds st) sc r st2)) s
      = map_option (\<lambda>cbs. rev (registered s ?evs) @ cbs) (stacks st s)"
    using fresh others by (auto simp: ex registered_append)
  moreover have "dom (cached_values (snd (scope_exit env (binds st) sc r st2)))
      = dom (cached_values st)"
    using fresh inv cv2 st1 by (auto simp: ex)
  moreover have "scopes (snd (scope_exit env (binds st) sc r st2)) = scopes st"
    by (simp add: ex)
  ultimately show ?thesis unfolding evolves_def by blast
qed

lemma evolves_inv:
  "evolves st st' \<Longrightarrow> dom (cached_values st) = dom (stacks st)
    \<Longrightarrow> dom (cached_values st') = dom (stacks st')"
  by (auto simp: evolves_def dom_def)

lemma scope_entry_inv:
  assumes "scope_entry st sc = Inr st1" and "dom (cached_values st) = dom (stacks st)"
  shows "dom (cached_values st1) = dom (stacks st1)"
proof -
  from assms(1) have "st1 = st\<lparr>scopes := scopes st @ [sc], stacks := (stacks st)(sc \<mapsto> []),
                       cached_values := (cached_values st)(sc \<mapsto> Map.empty)\<rparr>"
    by (auto simp: scope_entry_def split: if_splits)
  then show ?thesis using assms(2) by simp
qed

lemma run_evolves:
  "dom (cached_values st) = dom (stacks st) \<Longrightarrow> evolves st (snd (run env g c st))"
  "dom (cached_values st) = dom (stacks st) \<Longrightarrow> evolves st (snd (run_all env g cs st))"
proof (induction env g c st and env g cs st rule: run_run_all.induct)
  case (1 env g target source_dependant st)
  show ?case by (simp add: bind_evolves)
next
  case (2 env g d st)
  from execute_evolves [of st env g d] show ?case
    by (auto split: prod.splits sum.splits)
next
  case (3 env g st)
  show ?case by (simp add: evolves_refl)
next
  case (4 env g st)
  show ?case by (simp add: evolves_refl)
next
  case (5 env g sc body st)
  show ?case
  proof (cases "scope_entry st sc")
    case (Inl e)
    then show ?thesis by (simp add: evolves_refl)
  next
    case (Inr st1)
    obtain r st2 where b: "run_all env g body st1 = (r, st2)"
      by (cases "run_all env g body st1")
    from "5.IH" [OF Inr scope_entry_inv [OF Inr "5.prems"]] b
    have "evolves st1 st2" by simp
    from scope_exit_evolves [OF "5.prems" Inr this, of env r] Inr b
    show ?thesis by simp
  qed
next
  case (6 env g st)
  show ?case by (simp add: evolves_refl)
next
  case (7 env g c cs st)
  obtain r st1 where r: "run env g c st = (r, st1)" by (cases "run env g c st")
  from "7.IH"(1) [OF "7.prems"] r have e1: "evolves st st1" by simp
  show ?case
  proof (cases r)
    case (Inl e)
    with r e1 show ?thesis by simp
  next
    case (Inr u)
    from "7.IH"(2) [OF r [symmetric] Inr evolves_inv [OF e1 "7.prems"]]
    have "evolves st1 (snd (run_all env g cs st1))" .
    with e1 have "evolves st (snd (run_all env g cs st1))" by (rule evolves_trans)
    with r Inr show ?thesis by simp
  qed
qed

lemma enter_scope_entered:
  "scope_entry st sc = Inr st1 \<Longrightarrow> enter_scope env st sc body
     = scope_exit env (binds st) sc (fst (body st1)) (snd (body st1))"
  by (simp add: enter_scope_def)

section \<open>Teardown\<close>

text \<open>
  Let a scope be entered from a state in which every scope with an exit stack has a cache
  bucket and the other way round, and let the body be any client program. The events of
  the body registered some guards on the exit stack of the scope. When the scope exits,
  the stack is unwound from the latest registration to the earliest, and the events of
  the exit are the calls of the exits that \<open>exits_called\<close> selects, each once.
\<close>

lemma teardown_events:
  assumes inv: "dom (cached_values st) = dom (stacks st)"
    and entry: "scope_entry st sc = Inr st1"
    and body: "run_all env g body st1 = (rb, st2)"
  shows "\<exists>evs. trace st2 = trace st @ evs
      \<and> stacks st2 sc = Some (rev (registered sc evs))
      \<and> trace (snd (enter_scope env st sc (run_all env g body)))
          = trace st2 @ map Exit (exits_called env (rev (registered sc evs))
              (case rb of Inl e \<Rightarrow> Some e | Inr u \<Rightarrow> None))"
proof -
  from run_evolves(2) [OF scope_entry_inv [OF entry inv], of env g body] body
  have "evolves st1 st2" by simp
  from scope_exit_after_body [OF inv entry this, of env rb] obtain evs where
    "trace st2 = trace st @ evs" "stacks st2 sc = Some (rev (registered sc evs))"
    "snd (scope_exit env (binds st) sc rb st2) =
          st2\<lparr>stacks := (stacks st2)(sc := None), binds := binds st,
              cached_values := (cached_values st2)(sc := None),
              scopes := scopes st,
              trace := trace st2 @ map Exit (exits_called env (rev (registered sc evs))
                (case rb of Inl e \<Rightarrow> Some e | Inr u \<Rightarrow> None))\<rparr>"
    by blast
  then show ?thesis
    by (auto simp: enter_scope_entered [OF entry] body intro!: exI [of _ evs])
qed

text \<open>
  When the body ends normally or with an \<^verbatim>\<open>Exception\<close> (for instance because the acquisition
  of a later guard failed), or when no guard of the stack was bound by
  \<^verbatim>\<open>bind_sync_context_manager\<close>, the exit of every registered guard is called exactly once,
  in the reverse order of the registrations.
\<close>

lemma teardown_reverse_order:
  assumes inv: "dom (cached_values st) = dom (stacks st)"
    and entry: "scope_entry st sc = Inr st1"
    and body: "run_all env g body st1 = (rb, st2)"
    and kind: "(\<forall>e. rb = Inl e \<longrightarrow> is_exception e)
      \<or> (\<forall>p cbs. stacks st2 sc = Some cbs \<longrightarrow> p \<in> set cbs \<longrightarrow> \<not> sync_guard env p)"
  shows "\<exists>evs. trace st2 = trace st @ evs
      \<and> stacks st2 sc = Some (rev (registered sc evs))
      \<and> trace (snd (enter_scope env st sc (run_all env g body)))
          = trace st2 @ map Exit (rev (registered sc evs))"
proof -
  from teardown_events [OF inv entry body] obtain evs where
    e: "trace st2 = trace st @ evs" "stacks st2 sc = Some (rev (registered sc evs))"
      "trace (snd (enter_scope env st sc (run_all env g body)))
          = trace st2 @ map Exit (exits_called env (rev (registered sc evs))
              (case rb of Inl e \<Rightarrow> Some e | Inr u \<Rightarrow> None))"
    by blast
  from kind have "exits_called env (rev (registered sc evs))
      (case rb of Inl e \<Rightarrow> Some e | Inr u \<Rightarrow> None) = rev (registered sc evs)"
  proof
    assume "\<forall>e. rb = Inl e \<longrightarrow> is_exception e"
    then show ?thesis
      by (intro exits_called_exception) (auto split: sum.splits)
  next
    assume "\<forall>p cbs. stacks st2 sc = Some cbs \<longrightarrow> p \<in> set cbs \<longrightarrow> \<not> sync_guard env p"
    with e(2) show ?thesis
      by (intro exits_called_async) auto
  qed
  with e show ?thesis by auto
qed

text \<open>
  C5 fails on the code when the body of a scope is cancelled while the exit stack holds a
  guard that is a synchronous context manager. In the scope 1 the guards 1 and 2 are
  acquired and registered. When the body then raises an \<^verbatim>\<open>Exception\<close>, both exits are
  called, the latest first; when it is cancelled instead, the scope exits with the
  cancellation and no exit is called at all. With the same providers as asynchronous
  generators, the cancelled body leaves the scope with both exits called.
\<close>

theorem sync_guard_exit_skipped:
  "sync_guard sync_env 1 \<and> sync_guard sync_env 2 \<and> \<not> is_exception CancelledError
   \<and> fst (run_all sync_env guard_graph [DoExecute 0, DoExecute 1, DoCancel] app_state)
       = Inl CancelledError
   \<and> trace (snd (run_all sync_env guard_graph [DoExecute 0, DoExecute 1, DoCancel] app_state))
       = [Call 1, Push (ScopeId 1) 1, Call 2, Push (ScopeId 1) 2]
   \<and> stacks (snd (run_all sync_env guard_graph [DoExecute 0, DoExecute 1, DoCancel] app_state))
         (ScopeId 1) = Some [2, 1]
   \<and> fst (enter_scope sync_env init_state (ScopeId 1)
         (run_all sync_env guard_graph [DoExecute 0, DoExecute 1, DoCancel]))
       = Inl CancelledError
   \<and> trace (snd (enter_scope sync_env init_state (ScopeId 1)
         (run_all sync_env guard_graph [DoExecute 0, DoExecute 1, DoCancel])))
       = [Call 1, Push (ScopeId 1) 1, Call 2, Push (ScopeId 1) 2]
   \<and> trace (snd (enter_scope sync_env init_state (ScopeId 1)
         (run_all sync_env guard_graph [DoExecute 0, DoExecute 1, DoRaise])))
       = [Call 1, Push (ScopeId 1) 1, Call 2, Push (ScopeId 1) 2, Exit 2, Exit 1]
   \<and> trace (snd (enter_scope guard_env init_state (ScopeId 1)
         (run_all guard_env guard_graph [DoExecute 0, DoExecute 1, DoCancel])))
       = [Call 1, Push (ScopeId 1) 1, Call 2, Push (ScopeId 1) 2, Exit 2, Exit 1]"
  by code_simp

text \<open>
  C6: under the same assumption on the state at entry, and for any client program as the
  body, whether it ends normally or with an exception: at the end of the body the scope is
  the innermost one and owns a cache bucket and an exit stack; after the exit the scope
  stack is the one before entry, the bucket and the exit stack of the scope are gone and
  the sets of buckets and of exit stacks are those before entry, and the binding table is
  the one before entry.
\<close>

theorem scope_exit_restores:
  assumes inv: "dom (cached_values st) = dom (stacks st)"
    and entry: "scope_entry st sc = Inr st1"
    and body: "run_all env g body st1 = (rb, st2)"
    and exit: "enter_scope env st sc (run_all env g body) = (r, st')"
  shows "scopes st2 = scopes st @ [sc] \<and> scopes st' = scopes st
    \<and> sc \<in> dom (cached_values st2) \<and> cached_values st' sc = None
    \<and> dom (cached_values st') = dom (cached_values st)
    \<and> sc \<in> dom (stacks st2) \<and> stacks st' sc = None
    \<and> dom (stacks st') = dom (stacks st)
    \<and> binds st' = binds st"
proof -
  from entry have fresh: "sc \<notin> dom (stacks st)"
    and st1: "st1 = st\<lparr>scopes := scopes st @ [sc], stacks := (stacks st)(sc \<mapsto> []),
                       cached_values := (cached_values st)(sc \<mapsto> Map.empty)\<rparr>"
    by (auto simp: scope_entry_def split: if_splits)
  from run_evolves(2) [OF scope_entry_inv [OF entry inv], of env g body] body
  have ev: "evolves st1 st2" by simp
  from scope_exit_after_body [OF inv entry ev, of env rb] obtain evs where
    top: "stacks st2 sc = Some (rev (registered sc evs))"
    and ex: "snd (scope_exit env (binds st) sc rb st2) =
          st2\<lparr>stacks := (stacks st2)(sc := None), binds := binds st,
              cached_values := (cached_values st2)(sc := None),
              scopes := scopes st,
              trace := trace st2 @ map Exit (exits_called env (rev (registered sc evs))
                (case rb of Inl e \<Rightarrow> Some e | Inr u \<Rightarrow> None))\<rparr>"
    by blast
  from exit have st': "st' = snd (scope_exit env (binds st) sc rb st2)"
    by (simp add: enter_scope_entered [OF entry] body)
  from scope_exit_evolves [OF inv entry ev, of env rb] st' have ev': "evolves st st'"
    by simp
  from ev st1 have "scopes st2 = scopes st @ [sc]" and "sc \<in> dom (cached_values st2)"
    by (auto simp: evolves_def)
  moreover from ev' have "scopes st' = scopes st"
    and "dom (cached_values st') = dom (cached_values st)"
    by (auto simp: evolves_def)
  moreover from ev' have "dom (stacks st') = dom (stacks st)"
    by (auto simp: evolves_def dom_def)
  moreover from st' ex have "cached_values st' sc = None" "stacks st' sc = None"
    "binds st' = binds st"
    by simp_all
  moreover from top have "sc \<in> dom (stacks st2)" by auto
  ultimately show ?thesis by blast
qed

theorem scope_exit_restores_witness:
  "dom (cached_values init_state) = dom (stacks init_state)
   \<and> scope_entry init_state (ScopeId 1) = Inr app_state
   \<and> fst (run_all ex_env bind_graph [DoBind 0 1, DoExecute 0, DoRaise] app_state)
        = Inl ApplicationError
   \<and> binds (snd (run_all ex_env bind_graph [DoBind 0 1, DoExecute 0, DoRaise] app_state)) 0
        = Some 1
   \<and> scopes (snd (enter_scope ex_env init_state (ScopeId 1)
        (run_all ex_env bind_graph [DoBind 0 1, DoExecute 0, DoRaise]))) = []
   \<and> binds (snd (enter_scope ex_env init_state (ScopeId 1)
        (run_all ex_env bind_graph [DoBind 0 1, DoExecute 0, DoRaise]))) = Map.empty
   \<and> cached_values (snd (enter_scope ex_env init_state (ScopeId 1)
        (run_all ex_env bind_graph [DoBind 0 1, DoExecute 0, DoRaise]))) (ScopeId 1) = None
   \<and> stacks (snd (enter_scope ex_env init_state (ScopeId 1)
        (run_all ex_env bind_graph [DoBind 0 1, DoExecute 0, DoRaise]))) (ScopeId 1) = None"
proof -
  let ?body = "[DoBind 0 1, DoExecute 0, DoRaise]"
  have i: "dom (cached_values init_state) = dom (stacks init_state)"
    by (simp add: init_state_def)
  have e: "scope_entry init_state (ScopeId 1) = Inr app_state"
    by (simp add: scope_entry_def init_state_def app_state_def)
  have r: "fst (run_all ex_env bind_graph ?body app_state) = Inl ApplicationError"
    by code_simp
  have b: "binds (snd (run_all ex_env bind_graph ?body app_state)) 0 = Some 1"
    by code_simp
  from scope_exit_restores [OF i e, of ex_env bind_graph ?body
      "fst (run_all ex_env bind_graph ?body app_state)"
      "snd (run_all ex_env bind_graph ?body app_state)"
      "fst (enter_scope ex_env init_state (ScopeId 1) (run_all ex_env bind_graph ?body))"
      "snd (enter_scope ex_env init_state (ScopeId 1) (run_all ex_env bind_graph ?body))"]
  have "scopes (snd (enter_scope ex_env init_state (ScopeId 1)
        (run_all ex_env bind_graph ?body))) = scopes init_state"
    and "binds (snd (enter_scope ex_env init_state (ScopeId 1)
        (run_all ex_env bind_graph ?body))) = binds init_state"
    and "cached_values (snd (enter_scope ex_env init_state (ScopeId 1)
        (run_all ex_env bind_graph ?body))) (ScopeId 1) = None"
    and "stacks (snd (enter_scope ex_env init_state (ScopeId 1)
        (run_all ex_env bind_graph ?body))) (ScopeId 1) = None"
    by simp_all
  with i e r b show ?thesis by (simp add: init_state_def)
qed

section \<open>Unscoped dependencies and the scope stack\<close>

lemma build_task_unscoped_no_scope:
  assumes "scopes st = []" and "scope (g ! d) = Unscoped"
    and "binds st (call (g ! d)) = None"
    and "d \<notin> seen bs" and "map_of (task_cache bs) d = None"
  shows "build_task (Suc n) env g st d bs = Inl IndexError"
  using assms
  by (simp add: resolve_scope_def substitute_def check_scope_def stack_for_def)

text \<open>
  C10: take a description tagged Unscoped whose provider has no binding. The scope check
  passes for Unscoped whatever the state. With an active scope whose exit stack exists,
  the call is bound to the stack of the innermost scope. With an empty scope stack,
  building a task for the description (not seen before, not in the task cache) fails with
  \<open>IndexError\<close>, not with the unknown-scope error, and so does \<open>execute\<close>, leaving the state
  as it was.
\<close>

theorem unscoped_needs_active_scope:
  assumes "scope (g ! d) = Unscoped" and "binds st (call (g ! d)) = None"
  shows "check_scope st Unscoped = Inr ()
    \<and> (scopes st \<noteq> [] \<longrightarrow> last (scopes st) \<in> dom (stacks st)
          \<longrightarrow> stack_for st Unscoped = Inr (last (scopes st)))
    \<and> (scopes st = [] \<longrightarrow>
          (\<forall>n bs. d \<notin> seen bs \<longrightarrow> map_of (task_cache bs) d = None
              \<longrightarrow> build_task (Suc n) env g st d bs = Inl IndexError)
          \<and> execute env g d st = (Inl IndexError, st))"
proof -
  have "execute env g d st = (Inl IndexError, st)" if "scopes st = []"
    using build_task_unscoped_no_scope [OF that assms, of empty_build "length g" env]
    by (simp add: execute_def build_def empty_build_def)
  moreover have "\<forall>n bs. d \<notin> seen bs \<longrightarrow> map_of (task_cache bs) d = None
              \<longrightarrow> build_task (Suc n) env g st d bs = Inl IndexError" if "scopes st = []"
    using build_task_unscoped_no_scope [OF that assms] by blast
  moreover have "check_scope st Unscoped = Inr ()"
    by (simp add: check_scope_def)
  moreover have "stack_for st Unscoped = Inr (last (scopes st))"
    if "scopes st \<noteq> []" "last (scopes st) \<in> dom (stacks st)"
    using that by (simp add: stack_for_def)
  ultimately show ?thesis by blast
qed

theorem unscoped_needs_active_scope_witness:
  "scope (lone_graph ! 0) = Unscoped \<and> binds init_state (call (lone_graph ! 0)) = None
   \<and> scopes init_state = []
   \<and> execute ex_env lone_graph 0 init_state = (Inl IndexError, init_state)
   \<and> scopes app_state \<noteq> [] \<and> last (scopes app_state) \<in> dom (stacks app_state)
   \<and> stack_for app_state Unscoped = Inr (ScopeId 1)
   \<and> fst (execute ex_env lone_graph 0 app_state) = Inr 0"
proof -
  have a: "scope (lone_graph ! 0) = Unscoped" "binds init_state (call (lone_graph ! 0)) = None"
    "binds app_state (call (lone_graph ! 0)) = None"
    by (simp_all add: lone_graph_def init_state_def app_state_def)
  have s: "scopes init_state = []" "scopes app_state \<noteq> []"
    "last (scopes app_state) \<in> dom (stacks app_state)" "last (scopes app_state) = ScopeId 1"
    by (simp_all add: init_state_def app_state_def)
  have e: "fst (execute ex_env lone_graph 0 app_state) = Inr 0"
    by code_simp
  note u = unscoped_needs_active_scope [OF a(1,2), of ex_env]
  note v = unscoped_needs_active_scope [OF a(1,3), of ex_env]
  from u s(1) have "execute ex_env lone_graph 0 init_state = (Inl IndexError, init_state)"
    by simp
  moreover from v s have "stack_for app_state Unscoped = Inr (ScopeId 1)"
    by simp
  ultimately show ?thesis using a s e by simp
qed

section \<open>Executing a single provider\<close>

lemma evolves_count: "evolves st st' \<Longrightarrow> count_list (trace st) e \<le> count_list (trace st') e"
  by (auto simp: evolves_def)

lemma invoke_cached_values: "cached_values (snd (invoke env c kwargs st)) = cached_values st"
  by (cases c)
     (auto simp: run_provider_def bind_async_context_manager_def push_exit_def Let_def
       context_manager_in_threadpool_def split: option.splits prod.splits sum.splits
       exit_result.splits if_splits)

lemma invoke_scopes: "scopes (snd (invoke env c kwargs st)) = scopes st"
  by (cases c)
     (auto simp: run_provider_def bind_async_context_manager_def push_exit_def Let_def
       context_manager_in_threadpool_def split: option.splits prod.splits sum.splits
       exit_result.splits if_splits)

text \<open>An adapted provider is invoked exactly once by \<open>invoke\<close>, whatever its shape.\<close>

lemma invoke_wrapped_count:
  "count_list (trace (snd (invoke env (wrap_call env c stack) kwargs st))) (Call c)
    = Suc (count_list (trace st) (Call c))"
  by (auto simp: wrap_call_def run_provider_def bind_async_context_manager_def push_exit_def
      Let_def context_manager_in_threadpool_def split: option.splits prod.splits sum.splits
      exit_result.splits if_splits)

lemma invoke_wrapped_value:
  "fst (invoke env (wrap_call env c stack) kwargs st) = Inr v
    \<longleftrightarrow> returns env c (count_list (trace st) (Call c)) kwargs = Some v"
  by (auto simp: wrap_call_def run_provider_def bind_async_context_manager_def push_exit_def
      Let_def context_manager_in_threadpool_def split: option.splits prod.splits sum.splits
      exit_result.splits if_splits)

lemma result_memo:
  "result env t rs = (Inr v, rs') \<Longrightarrow> fst rs' (t_id t) = Some v"
  by (cases t) (auto split: option.splits prod.splits sum.splits)

text \<open>A task that is not memoized yet and wraps a provider invokes it when its result succeeds.\<close>

lemma result_invokes:
  assumes "result env (Task i d sc (wrap_call env c stack) deps) rs = (Inr v, rs')"
    and "fst rs i = None"
  shows "count_list (trace (snd rs)) (Call c) < count_list (trace (snd rs')) (Call c)"
proof -
  obtain r1 rs1 where s: "start_all env deps rs = (r1, rs1)" by (cases "start_all env deps rs")
  obtain r2 rs2 where a: "await_all env deps rs1 = (r2, rs2)" by (cases "await_all env deps rs1")
  from assms s obtain u where r1: "r1 = Inr u" by (cases r1) auto
  from assms s a r1 obtain vals where r2: "r2 = Inr vals" by (cases r2) auto
  from assms s a r1 r2 have rs': "snd rs' = snd (invoke env (wrap_call env c stack) vals (snd rs2))"
    by (auto split: prod.splits sum.splits)
  from result_relates(2) [where R = evolves and env = env and ts = deps and rs = rs,
      OF evolves_refl evolves_trans invoke_evolves] s
  have "evolves (snd rs) (snd rs1)" by simp
  moreover from result_relates(3) [where R = evolves and env = env and ts = deps and rs = rs1,
      OF evolves_refl evolves_trans invoke_evolves] a
  have "evolves (snd rs1) (snd rs2)" by simp
  ultimately have "count_list (trace (snd rs)) (Call c) \<le> count_list (trace (snd rs2)) (Call c)"
    by (meson evolves_count le_trans)
  with rs' show ?thesis by (simp add: invoke_wrapped_count)
qed

lemma run_tasks_root:
  assumes "run_tasks env g t ts st = (Inr v, rs')"
  shows "\<exists>rs1. result env t (Map.empty, st) = (Inr v, rs1) \<and> evolves (snd rs1) (snd rs')"
proof -
  obtain r1 rs1 where r: "result env t (Map.empty, st) = (r1, rs1)"
    by (cases "result env t (Map.empty, st)")
  with assms obtain res where res: "r1 = Inr res"
    by (cases r1) (auto simp: run_tasks_def)
  from assms r res obtain sc where sc: "resolve_scope (snd rs1) (t_scope t) = Inr sc"
    by (cases "resolve_scope (snd rs1) (t_scope t)") (auto simp: run_tasks_def)
  define w where "w = (if sc \<noteq> Unscoped
                       then store_cached (snd rs1) sc (call (g ! t_dependant t)) res
                       else Inr (snd rs1))"
  from assms r res sc obtain st2 where w: "w = Inr st2"
    by (cases w) (auto simp: run_tasks_def w_def)
  then have e2: "evolves (snd rs1) st2"
    by (auto simp: w_def evolves_refl store_cached_evolves split: if_splits)
  obtain r3 rs3 where c: "cache_results env g ts (fst rs1, st2) = (r3, rs3)"
    by (cases "cache_results env g ts (fst rs1, st2)")
  from cache_results_relates [where R = evolves and env = env and rs = "(fst rs1, st2)"
      and g = g and ts = ts, OF evolves_refl evolves_trans invoke_evolves store_cached_evolves] c
  have e3: "evolves st2 (snd rs3)" by simp
  from assms r res sc w c have "v = res \<and> rs' = rs3"
    by (cases r3) (auto simp: run_tasks_def w_def [symmetric])
  with r res e2 e3 show ?thesis by (auto intro: evolves_trans)
qed

lemma build_task_unscoped:
  assumes "scope (g ! d) = Unscoped" and "binds st (call (g ! d)) = None"
    and "map_of (task_cache bs) d = None"
    and "build_task n env g st d bs = Inr (hit, t, bs')"
  shows "\<exists>i stack subs. t = Task i d Unscoped (wrap_call env (call (g ! d)) stack) subs"
proof (cases n)
  case 0
  with assms show ?thesis by simp
next
  case (Suc k)
  with assms show ?thesis
    by (auto simp: resolve_scope_def substitute_def check_scope_def finish_task_def Let_def
        split: if_splits sum.splits prod.splits)
qed

lemma execute_unscoped_invokes:
  assumes "scope (g ! d) = Unscoped" and "binds st (call (g ! d)) = None"
    and "execute env g d st = (Inr v, st')"
  shows "count_list (trace st) (Call (call (g ! d))) < count_list (trace st') (Call (call (g ! d)))"
proof -
  from assms(3) obtain hit t bs where b: "build env g st d = Inr (hit, t, bs)"
    by (cases "build env g st d") (auto simp: execute_def)
  with assms(3) obtain m where r: "run_tasks env g t (map snd (task_cache bs)) st = (Inr v, (m, st'))"
    by (auto simp: execute_def split: prod.splits)
  from build_task_unscoped [OF assms(1,2) _ b [unfolded build_def]]
  obtain i stack subs where t: "t = Task i d Unscoped (wrap_call env (call (g ! d)) stack) subs"
    by (auto simp: empty_build_def)
  from run_tasks_root [OF r] obtain rs1 where
    1: "result env t (Map.empty, st) = (Inr v, rs1)" and 2: "evolves (snd rs1) st'"
    by auto
  from result_invokes [OF 1 [unfolded t]]
  have "count_list (trace st) (Call (call (g ! d))) < count_list (trace (snd rs1)) (Call (call (g ! d)))"
    by simp
  with evolves_count [OF 2] show ?thesis
    by (meson less_le_trans)
qed

lemma execute_unscoped_leaf:
  assumes "scope (g ! d) = Unscoped" and "binds st (call (g ! d)) = None"
    and "dependencies (g ! d) = []"
  shows "execute env g d st =
    (if scopes st = [] then (Inl IndexError, st)
     else if last (scopes st) \<notin> dom (stacks st) then (Inl KeyError, st)
     else invoke env (wrap_call env (call (g ! d)) (last (scopes st))) [] st)"
proof (cases "scopes st \<noteq> [] \<and> last (scopes st) \<in> dom (stacks st)")
  case False
  with assms show ?thesis
    by (auto simp: execute_def build_def empty_build_def resolve_scope_def substitute_def
        check_scope_def stack_for_def)
next
  case True
  let ?c = "wrap_call env (call (g ! d)) (last (scopes st))"
  let ?t = "Task 0 d Unscoped ?c []"
  have b: "build env g st d = Inr (False, ?t,
      \<lparr>task_cache = [(d, ?t)], call_cache = Map.empty, seen = {d}, next_id = Suc 0\<rparr>)"
    using assms True
    by (simp add: build_def empty_build_def resolve_scope_def substitute_def check_scope_def
        stack_for_def finish_task_def Let_def)
  obtain r sa where i: "invoke env ?c [] st = (r, sa)" by (cases "invoke env ?c [] st")
  have "run_tasks env g ?t [?t] st = (r, (if isl r then Map.empty else [0 \<mapsto> projr r], sa))"
    using i by (cases r) (simp_all add: run_tasks_def resolve_scope_def)
  with b i True show ?thesis by (simp add: execute_def)
qed

lemma execute_unscoped_leaf_ok:
  assumes "scope (g ! d) = Unscoped" and "binds st (call (g ! d)) = None"
    and "dependencies (g ! d) = []"
    and "execute env g d st = (Inr v, st')"
  shows "cached_values st' = cached_values st"
    and "count_list (trace st') (Call (call (g ! d))) = Suc (count_list (trace st) (Call (call (g ! d))))"
    and "returns env (call (g ! d)) (count_list (trace st) (Call (call (g ! d)))) [] = Some v"
proof -
  let ?c = "wrap_call env (call (g ! d)) (last (scopes st))"
  from assms(4) have i: "invoke env ?c [] st = (Inr v, st')"
    unfolding execute_unscoped_leaf [OF assms(1-3)] by (auto split: if_splits)
  from invoke_cached_values [of env ?c "[]" st] i show "cached_values st' = cached_values st"
    by simp
  from invoke_wrapped_count [of env "call (g ! d)" "last (scopes st)" "[]" st] i
  show "count_list (trace st') (Call (call (g ! d))) = Suc (count_list (trace st) (Call (call (g ! d))))"
    by simp
  from invoke_wrapped_value [of env "call (g ! d)" "last (scopes st)" "[]" st v] i
  show "returns env (call (g ! d)) (count_list (trace st) (Call (call (g ! d)))) [] = Some v"
    by simp
qed

text \<open>
  C3: take a description tagged Unscoped whose provider has no binding, and two \<open>execute\<close>
  calls for it in a row that both return. Each call invokes the provider, whatever the
  result caches hold. If the description has no sub-dependencies, then the caches after
  each call are the caches before, the provider has run exactly once per call, and each
  call returns what its own invocation returned.
\<close>

theorem unscoped_never_cached:
  assumes tag: "scope (g ! d) = Unscoped" and unbound: "binds st (call (g ! d)) = None"
    and first: "execute env g d st = (Inr v1, st1)"
    and second: "execute env g d st1 = (Inr v2, st2)"
  shows "count_list (trace st) (Call (call (g ! d))) < count_list (trace st1) (Call (call (g ! d)))
    \<and> count_list (trace st1) (Call (call (g ! d))) < count_list (trace st2) (Call (call (g ! d)))
    \<and> (dependencies (g ! d) = [] \<longrightarrow>
          cached_values st1 = cached_values st \<and> cached_values st2 = cached_values st
          \<and> count_list (trace st2) (Call (call (g ! d)))
              = count_list (trace st) (Call (call (g ! d))) + 2
          \<and> returns env (call (g ! d)) (count_list (trace st) (Call (call (g ! d)))) [] = Some v1
          \<and> returns env (call (g ! d)) (Suc (count_list (trace st) (Call (call (g ! d))))) []
              = Some v2)"
proof -
  from execute_binds [of env g d st] first have "binds st1 = binds st" by simp
  with unbound have unbound1: "binds st1 (call (g ! d)) = None" by simp
  note a = execute_unscoped_invokes [OF tag unbound first]
  note b = execute_unscoped_invokes [OF tag unbound1 second]
  have "cached_values st1 = cached_values st \<and> cached_values st2 = cached_values st
          \<and> count_list (trace st2) (Call (call (g ! d)))
              = count_list (trace st) (Call (call (g ! d))) + 2
          \<and> returns env (call (g ! d)) (count_list (trace st) (Call (call (g ! d)))) [] = Some v1
          \<and> returns env (call (g ! d)) (Suc (count_list (trace st) (Call (call (g ! d))))) []
              = Some v2"
    if leaf: "dependencies (g ! d) = []"
    using execute_unscoped_leaf_ok [OF tag unbound leaf first]
      execute_unscoped_leaf_ok [OF tag unbound1 leaf second]
    by simp
  with a b show ?thesis by blast
qed

theorem unscoped_never_cached_witness:
  "scope (lone_graph ! 0) = Unscoped \<and> binds cached_state (call (lone_graph ! 0)) = None
   \<and> dependencies (lone_graph ! 0) = []
   \<and> (\<exists>cv. cached_values cached_state (ScopeId 1) = Some cv \<and> cv (call (lone_graph ! 0)) = Some 5)
   \<and> fst (execute ex_env lone_graph 0 cached_state) = Inr 0
   \<and> fst (execute ex_env lone_graph 0 (snd (execute ex_env lone_graph 0 cached_state))) = Inr 1
   \<and> cached_values (snd (execute ex_env lone_graph 0 (snd (execute ex_env lone_graph 0 cached_state))))
       = cached_values cached_state
   \<and> count_list (trace (snd (execute ex_env lone_graph 0
         (snd (execute ex_env lone_graph 0 cached_state))))) (Call 0) = 2"
proof -
  let ?s1 = "snd (execute ex_env lone_graph 0 cached_state)"
  let ?s2 = "snd (execute ex_env lone_graph 0 ?s1)"
  have g: "scope (lone_graph ! 0) = Unscoped" "call (lone_graph ! 0) = 0"
    "dependencies (lone_graph ! 0) = []"
    by (simp_all add: lone_graph_def)
  have b: "binds cached_state (call (lone_graph ! 0)) = None"
    "cached_values cached_state (ScopeId 1) = Some [0 \<mapsto> 5, 2 \<mapsto> 7]"
    "trace cached_state = []"
    by (simp_all add: cached_state_def app_state_def g)
  have e1: "fst (execute ex_env lone_graph 0 cached_state) = Inr 0"
    by code_simp
  have e2: "fst (execute ex_env lone_graph 0 ?s1) = Inr 1"
    by code_simp
  from unscoped_never_cached [OF g(1) b(1), of ex_env 0 ?s1 1 ?s2] e1 e2 g(3)
  have "cached_values ?s2 = cached_values cached_state
      \<and> count_list (trace ?s2) (Call (call (lone_graph ! 0)))
          = count_list (trace cached_state) (Call (call (lone_graph ! 0))) + 2"
    by (metis prod.collapse)
  with g b e1 e2 show ?thesis by simp
qed

lemma find_cached_cong:
  "cached_values st' = cached_values st \<Longrightarrow> find_cached st' ss c = find_cached st ss c"
  by (induction ss) (auto split: option.splits)

lemma find_cached_None:
  "find_cached st ss c = Inr None \<Longrightarrow> s \<in> set ss
    \<Longrightarrow> \<exists>cv. cached_values st s = Some cv \<and> cv c = None"
  by (induction ss) (auto split: option.splits)

lemma find_cached_stored:
  assumes "find_cached st ss c = Inr None" and "sc \<in> set ss"
    and "cached_values st sc = Some cv"
    and "cached_values st' = (cached_values st)(sc \<mapsto> cv(c \<mapsto> v))"
  shows "find_cached st' ss c = Inr (Some v)"
  using assms(1,2)
proof (induction ss)
  case Nil
  then show ?case by simp
next
  case (Cons s ss)
  show ?case
  proof (cases "s = sc")
    case True
    with assms(3,4) show ?thesis by simp
  next
    case False
    with Cons.prems obtain cv' where "cached_values st s = Some cv'" "cv' c = None"
      "find_cached st ss c = Inr None" "sc \<in> set ss"
      by (auto split: option.splits)
    with False Cons.IH assms(4) show ?thesis by simp
  qed
qed

lemma execute_scoped_leaf_hit:
  assumes "dependencies (g ! d) = []" and "binds st (call (g ! d)) = None"
    and "resolve_scope st (scope (g ! d)) = Inr sc" and "sc \<noteq> Unscoped"
    and "sc \<in> dom (stacks st)"
    and "find_cached st (rev (scopes st)) (call (g ! d)) = Inr (Some v)"
  shows "execute env g d st = (Inr v, st)"
proof -
  let ?t = "Task 0 d Unscoped (Retrieve v) []"
  have b: "build env g st d = Inr (True, ?t,
      \<lparr>task_cache = [(d, ?t)], call_cache = [call (g ! d) \<mapsto> d], seen = {d},
        next_id = Suc 0\<rparr>)"
    using assms
    by (simp add: build_def empty_build_def substitute_def check_scope_def
        stack_for_def finish_task_def task_from_cached_value_def Let_def)
  have "run_tasks env g ?t [?t] st = (Inr v, ([0 \<mapsto> v], st))"
    by (simp add: run_tasks_def resolve_scope_def)
  with b show ?thesis by (simp add: execute_def)
qed

lemma execute_scoped_leaf_miss:
  assumes "dependencies (g ! d) = []" and "binds st (call (g ! d)) = None"
    and "resolve_scope st (scope (g ! d)) = Inr (ScopeId i)"
    and "ScopeId i \<in> dom (stacks st)"
    and "find_cached st (rev (scopes st)) (call (g ! d)) = Inr None"
    and "cached_values st (ScopeId i) = Some cv"
    and "invoke env (wrap_call env (call (g ! d)) (ScopeId i)) [] st = (Inr v, sa)"
  shows "execute env g d st =
    (Inr v, sa\<lparr>cached_values := (cached_values st)(ScopeId i \<mapsto> cv(call (g ! d) \<mapsto> v))\<rparr>)"
proof -
  let ?c = "wrap_call env (call (g ! d)) (ScopeId i)"
  let ?t = "Task 0 d (ScopeId i) ?c []"
  let ?sb = "sa\<lparr>cached_values := (cached_values st)(ScopeId i \<mapsto> cv(call (g ! d) \<mapsto> v))\<rparr>"
  have b: "build env g st d = Inr (False, ?t,
      \<lparr>task_cache = [(d, ?t)], call_cache = [call (g ! d) \<mapsto> d], seen = {d},
        next_id = Suc 0\<rparr>)"
    using assms(1-5)
    by (simp add: build_def empty_build_def substitute_def check_scope_def
        stack_for_def finish_task_def Let_def)
  from invoke_cached_values [of env ?c "[]" st] assms(7)
  have cv: "cached_values sa = cached_values st" by simp
  have 1: "result env ?t (Map.empty, st) = (Inr v, ([0 \<mapsto> v], sa))"
    using assms(7) by simp
  have 2: "store_cached sa (ScopeId i) (call (g ! d)) v = Inr ?sb"
    using assms(6) cv by (simp add: store_cached_def)
  have 3: "store_cached ?sb (ScopeId i) (call (g ! d)) v = Inr ?sb"
    by (simp add: store_cached_def)
  have 4: "result env ?t ([0 \<mapsto> v], ?sb) = (Inr v, ([0 \<mapsto> v], ?sb))"
    by simp
  have "run_tasks env g ?t [?t] st = (Inr v, ([0 \<mapsto> v], ?sb))"
    by (simp add: run_tasks_def 1 2 3 4 resolve_scope_def del: result.simps)
  with b show ?thesis by (simp add: execute_def)
qed

lemma resolve_scope_cong:
  "scopes st' = scopes st \<Longrightarrow> resolve_scope st' tag = resolve_scope st tag"
  by (simp add: resolve_scope_def)

lemma invoke_stacks_dom: "dom (stacks (snd (invoke env c kwargs st))) = dom (stacks st)"
  using invoke_evolves [of st env c kwargs] by (auto simp: evolves_def dom_def)

text \<open>
  C2 fails for a provider with a sub-dependency that is built anew: the provider 0 is tagged
  with the active scope 1 and depends on an Unscoped provider; two \<open>execute\<close> calls in a
  row invoke it twice and return different values.
\<close>

theorem scoped_provider_rerun:
  "dependencies (rerun_graph ! 0) = [(''u'', 1)] \<and> scope (rerun_graph ! 1) = Unscoped
   \<and> resolve_scope app_state (scope (rerun_graph ! 0)) = Inr (ScopeId 1)
   \<and> ScopeId 1 \<in> set (scopes app_state)
   \<and> fst (execute ex_env rerun_graph 0 app_state) = Inr 0
   \<and> fst (execute ex_env rerun_graph 0 (snd (execute ex_env rerun_graph 0 app_state))) = Inr 1
   \<and> count_list (trace (snd (execute ex_env rerun_graph 0
         (snd (execute ex_env rerun_graph 0 app_state))))) (Call 0) = 2"
  by code_simp

text \<open>
  C2, amended: take a description without sub-dependencies whose scope tag resolves to an
  active scope, whose provider has no binding and no cached value in any active scope, and
  whose call returns \<open>v\<close>. The first \<open>execute\<close> returns \<open>v\<close>, invokes the provider once and
  stores \<open>v\<close> in the bucket of the scope; a second \<open>execute\<close> right after it returns \<open>v\<close>
  and changes nothing at all, so the provider has run exactly once in total.
\<close>

theorem scoped_leaf_runs_once:
  assumes leaf: "dependencies (g ! d) = []" and unbound: "binds st (call (g ! d)) = None"
    and sc: "resolve_scope st (scope (g ! d)) = Inr (ScopeId i)"
    and active: "ScopeId i \<in> set (scopes st)" "ScopeId i \<in> dom (stacks st)"
    and fresh: "find_cached st (rev (scopes st)) (call (g ! d)) = Inr None"
    and ok: "returns env (call (g ! d)) (count_list (trace st) (Call (call (g ! d)))) [] = Some v"
  shows "\<exists>st1. execute env g d st = (Inr v, st1) \<and> execute env g d st1 = (Inr v, st1)
      \<and> count_list (trace st1) (Call (call (g ! d)))
          = Suc (count_list (trace st) (Call (call (g ! d))))
      \<and> (\<exists>cv. cached_values st1 (ScopeId i) = Some cv \<and> cv (call (g ! d)) = Some v)"
proof -
  let ?c = "wrap_call env (call (g ! d)) (ScopeId i)"
  obtain r sa where i: "invoke env ?c [] st = (r, sa)" by (cases "invoke env ?c [] st")
  with invoke_wrapped_value [of env "call (g ! d)" "ScopeId i" "[]" st v] ok
  have i: "invoke env ?c [] st = (Inr v, sa)" by simp
  from find_cached_None [OF fresh, of "ScopeId i"] active(1)
  obtain cv where cv: "cached_values st (ScopeId i) = Some cv" by auto
  let ?st1 = "sa\<lparr>cached_values := (cached_values st)(ScopeId i \<mapsto> cv(call (g ! d) \<mapsto> v))\<rparr>"
  have 1: "execute env g d st = (Inr v, ?st1)"
    by (rule execute_scoped_leaf_miss [OF leaf unbound sc active(2) fresh cv i])
  from invoke_binds [of env ?c "[]" st] invoke_scopes [of env ?c "[]" st]
    invoke_stacks_dom [of env ?c "[]" st] i
  have same: "binds sa = binds st" "scopes sa = scopes st" "dom (stacks sa) = dom (stacks st)"
    by simp_all
  have "find_cached ?st1 (rev (scopes st)) (call (g ! d)) = Inr (Some v)"
    by (rule find_cached_stored [OF fresh _ cv]) (use active(1) in simp_all)
  with same have hit: "find_cached ?st1 (rev (scopes ?st1)) (call (g ! d)) = Inr (Some v)"
    by simp
  have sc1: "resolve_scope ?st1 (scope (g ! d)) = Inr (ScopeId i)"
    using sc same(2) by (simp add: resolve_scope_cong [of ?st1 st])
  have unbound1: "binds ?st1 (call (g ! d)) = None"
    using unbound same(1) by simp
  have active1: "ScopeId i \<in> dom (stacks ?st1)"
    using active(2) same(3) by simp
  have 2: "execute env g d ?st1 = (Inr v, ?st1)"
    by (rule execute_scoped_leaf_hit [OF leaf unbound1 sc1 _ active1 hit]) simp
  from invoke_wrapped_count [of env "call (g ! d)" "ScopeId i" "[]" st] i
  have 3: "count_list (trace ?st1) (Call (call (g ! d)))
      = Suc (count_list (trace st) (Call (call (g ! d))))"
    by simp
  have 4: "\<exists>cv. cached_values ?st1 (ScopeId i) = Some cv \<and> cv (call (g ! d)) = Some v"
    by simp
  from 1 2 3 4 show ?thesis by blast
qed

theorem scoped_leaf_runs_once_witness:
  "dependencies (bind_graph ! 1) = [] \<and> binds app_state (call (bind_graph ! 1)) = None
   \<and> scope (bind_graph ! 1) = Inherit
   \<and> resolve_scope app_state (scope (bind_graph ! 1)) = Inr (ScopeId 1)
   \<and> ScopeId 1 \<in> set (scopes app_state) \<and> ScopeId 1 \<in> dom (stacks app_state)
   \<and> find_cached app_state (rev (scopes app_state)) (call (bind_graph ! 1)) = Inr None
   \<and> returns ex_env (call (bind_graph ! 1))
        (count_list (trace app_state) (Call (call (bind_graph ! 1)))) [] = Some 100
   \<and> fst (execute ex_env bind_graph 1 app_state) = Inr 100
   \<and> execute ex_env bind_graph 1 (snd (execute ex_env bind_graph 1 app_state))
        = (Inr 100, snd (execute ex_env bind_graph 1 app_state))
   \<and> count_list (trace (snd (execute ex_env bind_graph 1 app_state))) (Call 1) = 1"
proof -
  have g: "dependencies (bind_graph ! 1) = []" "call (bind_graph ! 1) = 1"
    "scope (bind_graph ! 1) = Inherit"
    by (simp_all add: bind_graph_def)
  have s: "binds app_state 1 = None" "resolve_scope app_state Inherit = Inr (ScopeId 1)"
    "ScopeId 1 \<in> set (scopes app_state)" "ScopeId 1 \<in> dom (stacks app_state)"
    "find_cached app_state (rev (scopes app_state)) 1 = Inr None"
    "trace app_state = []"
    by (simp_all add: app_state_def resolve_scope_def)
  have r: "returns ex_env 1 0 [] = Some 100"
    by (simp add: ex_env_def)
  from scoped_leaf_runs_once [of bind_graph 1 app_state 1 ex_env 100] g s r
  obtain st1 where "execute ex_env bind_graph 1 app_state = (Inr 100, st1)"
    "execute ex_env bind_graph 1 st1 = (Inr 100, st1)"
    "count_list (trace st1) (Call 1) = 1"
    by auto
  with g s r show ?thesis by simp
qed


section \<open>Shared descriptions\<close>

text \<open>
  C1 fails on the diamond: the graph has no cycle, each of the two branches executes on its
  own, but the build of the whole graph meets description 3 a second time in the sibling
  branch, finds it in \<open>seen\<close> and raises the circular-dependency error.
\<close>

theorem diamond_raises_circular:
  "dependencies (diamond ! 0) = [(''b'', 1), (''c'', 2)]
   \<and> dependencies (diamond ! 1) = [(''d'', 3)]
   \<and> dependencies (diamond ! 2) = [(''d'', 3)]
   \<and> dependencies (diamond ! 3) = []
   \<and> fst (execute ex_env diamond 1 app_state) = Inr 100
   \<and> fst (execute ex_env diamond 2 app_state) = Inr 200
   \<and> execute ex_env diamond 0 app_state = (Inl CircularDependencyError, app_state)"
proof -
  have "case build ex_env diamond app_state 0 of
          Inl e \<Rightarrow> e = CircularDependencyError | Inr b \<Rightarrow> False"
    by code_simp
  then have "build ex_env diamond app_state 0 = Inl CircularDependencyError"
    by (simp split: sum.splits)
  then have "execute ex_env diamond 0 app_state = (Inl CircularDependencyError, app_state)"
    by (simp add: execute_def)
  moreover have "fst (execute ex_env diamond 1 app_state) = Inr 100"
    "fst (execute ex_env diamond 2 app_state) = Inr 200"
    by code_simp+
  ultimately show ?thesis by (simp add: diamond_def)
qed

section \<open>The graph builder: what a successful build returns\<close>

declare build_task.simps [simp del] build_subtasks.simps [simp del]

lemma build_task_Inr_cases:
  assumes "build_task fuel env g st d bs = Inr (hit, t, bs')"
  obtains (cached) n task_scope d2 where
      "fuel = Suc n" "d \<notin> seen bs"
      "resolve_scope st (scope (g ! d)) = Inr task_scope"
      "substitute g st task_scope d (bs\<lparr>seen := insert d (seen bs)\<rparr>) = (d2, bs')"
      "map_of (task_cache bs') d2 = Some t" "hit"
  | (built) n task_scope d2 bs2 sc stack allow_cache subtasks bs3 where
      "fuel = Suc n" "d \<notin> seen bs"
      "resolve_scope st (scope (g ! d)) = Inr task_scope"
      "substitute g st task_scope d (bs\<lparr>seen := insert d (seen bs)\<rparr>) = (d2, bs2)"
      "map_of (task_cache bs2) d2 = None"
      "resolve_scope st (scope (g ! d2)) = Inr sc"
      "check_scope st sc = Inr ()"
      "stack_for st sc = Inr stack"
      "build_subtasks n env g st (dependencies (g ! d2)) True [] bs2
         = Inr (allow_cache, subtasks, bs3)"
      "finish_task g st d2 sc task_scope (wrap_call env (call (g ! d2)) stack)
         allow_cache subtasks bs3 = Inr (hit, t, bs')"
proof (cases fuel)
  case 0
  with assms show ?thesis by (simp add: build_task.simps)
next
  case (Suc n)
  with assms have a: "build_task (Suc n) env g st d bs = Inr (hit, t, bs')" by simp
  then have s: "d \<notin> seen bs" by (auto simp: build_task.simps split: if_splits)
  from a s obtain task_scope where ts: "resolve_scope st (scope (g ! d)) = Inr task_scope"
    by (cases "resolve_scope st (scope (g ! d))") (auto simp: build_task.simps)
  obtain d2 bs2 where sub:
    "substitute g st task_scope d (bs\<lparr>seen := insert d (seen bs)\<rparr>) = (d2, bs2)"
    by (cases "substitute g st task_scope d (bs\<lparr>seen := insert d (seen bs)\<rparr>)")
  show ?thesis
  proof (cases "map_of (task_cache bs2) d2")
    case (Some t')
    with a s ts sub have "hit" "t' = t" "bs2 = bs'" by (auto simp: build_task.simps)
    with Suc s ts sub Some show ?thesis by (auto intro: cached)
  next
    case None
    with a s ts sub obtain sc where sc: "resolve_scope st (scope (g ! d2)) = Inr sc"
      by (cases "resolve_scope st (scope (g ! d2))") (auto simp: build_task.simps)
    with a s ts sub None have ch: "check_scope st sc = Inr ()"
      by (cases "check_scope st sc") (auto simp: build_task.simps)
    with a s ts sub None sc obtain stack where sk: "stack_for st sc = Inr stack"
      by (cases "stack_for st sc") (auto simp: build_task.simps)
    with a s ts sub None sc ch obtain allow_cache subtasks bs3 where
      bsub: "build_subtasks n env g st (dependencies (g ! d2)) True [] bs2
         = Inr (allow_cache, subtasks, bs3)"
      by (cases "build_subtasks n env g st (dependencies (g ! d2)) True [] bs2")
         (auto simp: build_task.simps)
    with a s ts sub None sc ch sk have
      "finish_task g st d2 sc task_scope (wrap_call env (call (g ! d2)) stack)
         allow_cache subtasks bs3 = Inr (hit, t, bs')"
      by (simp add: build_task.simps)
    with Suc s ts sub None sc ch sk bsub show ?thesis by (rule built)
  qed
qed

lemma build_subtasks_Cons_Inr:
  assumes "build_subtasks n env g st (item # rest) allow_cache subtasks bs = Inr res"
  obtains allow_cache' subtask bs1 where
    "build_task n env g st (snd item) bs = Inr (allow_cache', subtask, bs1)"
    "build_subtasks n env g st rest allow_cache'
       (AList.update (fst item) subtask subtasks)
       (bs1\<lparr>task_cache := AList.update (snd item) subtask (task_cache bs1)\<rparr>) = Inr res"
  using assms
  by (cases "build_task n env g st (snd item) bs")
     (auto simp: build_subtasks.simps)

lemma set_update_subset: "set (AList.update k v al) \<subseteq> insert (k, v) (set al)"
  by (induction al) auto

lemma in_values_update:
  "x \<in> snd ` set (AList.update k v al) \<Longrightarrow> x = v \<or> x \<in> snd ` set al"
  using set_update_subset [of k v al] by force

lemma value_in_update: "v \<in> snd ` set (AList.update k v al)"
  by (induction al) auto

lemma cached_tasks_fields [simp]:
  "cached_tasks (bs\<lparr>seen := s\<rparr>) = cached_tasks bs"
  "cached_tasks (bs\<lparr>call_cache := c\<rparr>) = cached_tasks bs"
  "cached_tasks (bs\<lparr>next_id := i\<rparr>) = cached_tasks bs"
  by (simp_all add: cached_tasks_def)

lemma cached_tasks_update:
  "x \<in> cached_tasks (bs\<lparr>task_cache := AList.update k v (task_cache bs)\<rparr>)
    \<Longrightarrow> x = v \<or> x \<in> cached_tasks bs"
  unfolding cached_tasks_def by (simp add: in_values_update)

lemma cached_tasks_update_next:
  "x \<in> cached_tasks (bs\<lparr>task_cache := AList.update k v (task_cache bs), next_id := i\<rparr>)
    \<Longrightarrow> x = v \<or> x \<in> cached_tasks bs"
  unfolding cached_tasks_def by (simp add: in_values_update)

lemma cached_tasks_updated:
  "v \<in> cached_tasks (bs\<lparr>task_cache := AList.update k v (task_cache bs)\<rparr>)"
  "v \<in> cached_tasks (bs\<lparr>task_cache := AList.update k v (task_cache bs), next_id := i\<rparr>)"
  unfolding cached_tasks_def by (simp_all add: value_in_update)

lemma map_of_cached_tasks: "map_of (task_cache bs) k = Some t \<Longrightarrow> t \<in> cached_tasks bs"
  unfolding cached_tasks_def by (force dest: map_of_SomeD)

lemma finish_task_Inr:
  assumes "finish_task g st d sc task_scope c allow_cache subtasks bs = Inr (hit, t, bs')"
  shows "bs' = bs\<lparr>task_cache := AList.update d t (task_cache bs), next_id := Suc (next_id bs)\<rparr>"
    and "t_id t = next_id bs" and "t_dependant t = d"
    and "(\<exists>v. t = Task (next_id bs) d Unscoped (Retrieve v) [] \<and> hit)
         \<or> (t = Task (next_id bs) d task_scope c subtasks \<and> \<not> hit)"
  using assms
  by (auto simp: finish_task_def task_from_cached_value_def Let_def
      split: sum.splits option.splits if_splits)

lemma substitute_fields:
  assumes "substitute g st sc d bs = (d2, bs2)"
  shows "task_cache bs2 = task_cache bs" and "seen bs2 = seen bs" and "next_id bs2 = next_id bs"
    and "cached_tasks bs2 = cached_tasks bs"
  using assms by (auto simp: substitute_def cached_tasks_def Let_def split: if_splits option.splits)

lemma build_tasks_ok:
  "build_task fuel env g st d bs = Inr (hit, t, bs') \<Longrightarrow> tasks_ok bs
    \<Longrightarrow> tasks_ok bs' \<and> t \<in> cached_tasks bs' \<and> next_id bs \<le> next_id bs'"
  "build_subtasks fuel env g st items allow_cache subtasks bs = Inr (allow_cache', subtasks', bs')
    \<Longrightarrow> tasks_ok bs \<Longrightarrow> \<forall>s \<in> snd ` set subtasks. wf_task s \<and> t_id s < next_id bs
    \<Longrightarrow> tasks_ok bs' \<and> (\<forall>s \<in> snd ` set subtasks'. wf_task s \<and> t_id s < next_id bs')
        \<and> next_id bs \<le> next_id bs'"
proof (induction fuel env g st d bs and fuel env g st items allow_cache subtasks bs
    arbitrary: hit t bs' and allow_cache' subtasks' bs'
    rule: build_task_build_subtasks.induct)
  case (1 env g st d bs)
  then show ?case by (simp add: build_task.simps)
next
  case (2 n env g st d bs)
  from "2.prems"(1) show ?case
  proof (cases rule: build_task_Inr_cases)
    case (cached n' task_scope d2)
    from substitute_fields [OF cached(4)] "2.prems"(2) have "tasks_ok bs'"
      by (simp add: tasks_ok_def)
    moreover from cached(5) have "t \<in> cached_tasks bs'"
      by (rule map_of_cached_tasks)
    moreover from substitute_fields [OF cached(4)] have "next_id bs \<le> next_id bs'" by simp
    ultimately show ?thesis by simp
  next
    case (built n' task_scope d2 bs2 sc stack allow_cache subtasks bs3)
    from built(1) have n: "n' = n" by simp
    from substitute_fields [OF built(4)] "2.prems"(2) have ok2: "tasks_ok bs2"
      and id2: "next_id bs2 = next_id bs"
      by (simp_all add: tasks_ok_def)
    from "2.IH" [OF built(2) built(3) built(4) [symmetric] built(5) built(6) built(7)
        built(8) built(9) [unfolded n] ok2]
    have ok3: "tasks_ok bs3"
      and subs: "\<forall>s \<in> snd ` set subtasks. wf_task s \<and> t_id s < next_id bs3"
      and id3: "next_id bs2 \<le> next_id bs3"
      by simp_all
    note f = finish_task_Inr [OF built(10)]
    from f(4) subs have wt: "wf_task t" by auto
    have "tasks_ok bs'"
      unfolding tasks_ok_def
    proof
      fix x assume "x \<in> cached_tasks bs'"
      with f(1) have "x = t \<or> x \<in> cached_tasks bs3"
        by (auto dest: cached_tasks_update)
      with wt f(1,2) ok3 show "wf_task x \<and> t_id x < next_id bs'"
        by (auto simp: tasks_ok_def less_Suc_eq)
    qed
    moreover have "t \<in> cached_tasks bs'"
      unfolding f(1) by (rule cached_tasks_updated)
    moreover from f(1) id2 id3 have "next_id bs \<le> next_id bs'" by simp
    ultimately show ?thesis by simp
  qed
next
  case (3 n env g st allow_cache subtasks bs)
  then show ?case by (simp add: build_subtasks.simps)
next
  case (4 n env g st item rest allow_cache subtasks bs)
  from "4.prems"(1) obtain ac1 subtask bs1 where
    b: "build_task n env g st (snd item) bs = Inr (ac1, subtask, bs1)"
    and r: "build_subtasks n env g st rest ac1 (AList.update (fst item) subtask subtasks)
       (bs1\<lparr>task_cache := AList.update (snd item) subtask (task_cache bs1)\<rparr>)
       = Inr (allow_cache', subtasks', bs')"
    by (rule build_subtasks_Cons_Inr)
  from "4.IH"(1) [OF b "4.prems"(2)] have ok1: "tasks_ok bs1"
    and st: "subtask \<in> cached_tasks bs1" and id1: "next_id bs \<le> next_id bs1"
    by simp_all
  let ?bs1 = "bs1\<lparr>task_cache := AList.update (snd item) subtask (task_cache bs1)\<rparr>"
  have ok1': "tasks_ok ?bs1"
    unfolding tasks_ok_def
  proof
    fix x assume "x \<in> cached_tasks ?bs1"
    then have "x = subtask \<or> x \<in> cached_tasks bs1"
      by (rule cached_tasks_update)
    with ok1 st show "wf_task x \<and> t_id x < next_id ?bs1"
      unfolding tasks_ok_def by auto
  qed
  from ok1 st have "wf_task subtask \<and> t_id subtask < next_id bs1"
    by (auto simp: tasks_ok_def)
  moreover have "\<forall>s \<in> snd ` set subtasks. wf_task s \<and> t_id s < next_id bs1"
    using "4.prems"(3) id1 by fastforce
  ultimately have subs: "\<forall>s \<in> snd ` set (AList.update (fst item) subtask subtasks).
      wf_task s \<and> t_id s < next_id ?bs1"
    using in_values_update [of _ "fst item" subtask subtasks] by fastforce
  from "4.IH"(2) [OF b refl refl r ok1' subs] id1 show ?case by simp
qed

section \<open>Result slots and the loop of execute\<close>

text \<open>
  The result slots: a slot that is set is never changed, and the result of a well-formed
  task sets no slot with an identity above its own.
\<close>

lemma result_slots:
  "wf_task t \<Longrightarrow> fst rs \<subseteq>\<^sub>m fst (snd (result env t rs))
      \<and> (\<forall>j. t_id t < j \<longrightarrow> fst (snd (result env t rs)) j = fst rs j)"
  "\<forall>kt \<in> set ts. t_id (snd kt) < i \<and> wf_task (snd kt)
    \<Longrightarrow> fst rs \<subseteq>\<^sub>m fst (snd (start_all env ts rs))
      \<and> (\<forall>j. i \<le> j \<longrightarrow> fst (snd (start_all env ts rs)) j = fst rs j)"
  "\<forall>kt \<in> set ts. t_id (snd kt) < i \<and> wf_task (snd kt)
    \<Longrightarrow> fst rs \<subseteq>\<^sub>m fst (snd (await_all env ts rs))
      \<and> (\<forall>j. i \<le> j \<longrightarrow> fst (snd (await_all env ts rs)) j = fst rs j)"
proof (induction env t rs and env ts rs and env ts rs arbitrary: and i and i
    rule: result_start_all_await_all.induct)
  case (1 env k d sc c deps rs)
  show ?case
  proof (cases "fst rs k")
    case (Some v)
    then show ?thesis by simp
  next
    case None
    note n = None
    from "1.prems" have deps: "\<forall>kt \<in> set deps. t_id (snd kt) < k \<and> wf_task (snd kt)"
      by simp
    obtain r1 rs1 where s: "start_all env deps rs = (r1, rs1)" by (cases "start_all env deps rs")
    from "1.IH"(1) [OF n deps] s have m1: "fst rs \<subseteq>\<^sub>m fst rs1"
      and f1: "\<And>j. k \<le> j \<Longrightarrow> fst rs1 j = fst rs j"
      by simp_all
    show ?thesis
    proof (cases r1)
      case (Inl e)
      with n s m1 f1 show ?thesis by simp
    next
      case (Inr u)
      note r1 = Inr
      obtain r2 rs2 where a: "await_all env deps rs1 = (r2, rs2)"
        by (cases "await_all env deps rs1")
      from "1.IH"(2) [OF n s [symmetric] r1 deps] a have m2: "fst rs1 \<subseteq>\<^sub>m fst rs2"
        and f2: "\<And>j. k \<le> j \<Longrightarrow> fst rs2 j = fst rs1 j"
        by simp_all
      from m1 m2 have m12: "fst rs \<subseteq>\<^sub>m fst rs2" by (rule map_le_trans)
      from f1 f2 have f12: "\<And>j. k \<le> j \<Longrightarrow> fst rs2 j = fst rs j" by simp
      show ?thesis
      proof (cases r2)
        case (Inl e)
        with n s r1 a m12 f12 show ?thesis by simp
      next
        case (Inr vals)
        obtain r3 st3 where i: "invoke env c vals (snd rs2) = (r3, st3)"
          by (cases "invoke env c vals (snd rs2)")
        from f12 [of k] n have "fst rs2 k = None" by simp
        then have "fst rs2 \<subseteq>\<^sub>m (fst rs2)(k \<mapsto> w)" for w
          by (auto simp: map_le_def)
        with m12 have upd: "fst rs \<subseteq>\<^sub>m (fst rs2)(k \<mapsto> w)" for w
          by (rule map_le_trans)
        from f12 have f12': "\<And>j. k < j \<Longrightarrow> fst rs2 j = fst rs j" by simp
        show ?thesis
        proof (cases r3)
          case (Inl e)
          with n s r1 a Inr i m12 f12' show ?thesis by simp
        next
          case (Inr w)
          with n s r1 a \<open>r2 = Inr vals\<close> i
          have "snd (result env (Task k d sc c deps) rs) = ((fst rs2)(k \<mapsto> w), st3)"
            by simp
          then have res: "fst (snd (result env (Task k d sc c deps) rs)) = (fst rs2)(k \<mapsto> w)"
            by (simp del: result.simps)
          have "\<forall>j>k. ((fst rs2)(k \<mapsto> w)) j = fst rs j"
            using f12' by simp
          with upd [of w] show ?thesis
            unfolding res by (simp del: result.simps fun_upd_apply)
        qed
      qed
    qed
  qed
next
  case (2 env rs)
  show ?case by simp
next
  case (3 env kt rest rs)
  from "3.prems" have h: "wf_task (snd kt)" "t_id (snd kt) < i"
    and rest: "\<forall>kt \<in> set rest. t_id (snd kt) < i \<and> wf_task (snd kt)"
    by simp_all
  obtain r1 rs1 where s: "result env (snd kt) rs = (r1, rs1)" by (cases "result env (snd kt) rs")
  from "3.IH"(1) [OF h(1)] s h(2) have m1: "fst rs \<subseteq>\<^sub>m fst rs1"
    and f1: "\<And>j. i \<le> j \<Longrightarrow> fst rs1 j = fst rs j"
    by simp_all
  show ?case
  proof (cases r1)
    case (Inl e)
    with s m1 f1 show ?thesis by simp
  next
    case (Inr v)
    from "3.IH"(2) [OF s [symmetric] Inr rest]
    have "fst rs1 \<subseteq>\<^sub>m fst (snd (start_all env rest rs1))"
      and "\<And>j. i \<le> j \<Longrightarrow> fst (snd (start_all env rest rs1)) j = fst rs1 j"
      by simp_all
    with m1 f1 s Inr show ?thesis by (auto intro: map_le_trans)
  qed
next
  case (4 env rs)
  show ?case by simp
next
  case (5 env kt rest rs)
  from "5.prems" have h: "wf_task (snd kt)" "t_id (snd kt) < i"
    and rest: "\<forall>kt \<in> set rest. t_id (snd kt) < i \<and> wf_task (snd kt)"
    by simp_all
  obtain r1 rs1 where s: "result env (snd kt) rs = (r1, rs1)" by (cases "result env (snd kt) rs")
  from "5.IH"(1) [OF h(1)] s h(2) have m1: "fst rs \<subseteq>\<^sub>m fst rs1"
    and f1: "\<And>j. i \<le> j \<Longrightarrow> fst rs1 j = fst rs j"
    by simp_all
  show ?case
  proof (cases r1)
    case (Inl e)
    with s m1 f1 show ?thesis by simp
  next
    case (Inr v)
    from "5.IH"(2) [OF s [symmetric] Inr rest]
    have "fst rs1 \<subseteq>\<^sub>m fst (snd (await_all env rest rs1))"
      and "\<And>j. i \<le> j \<Longrightarrow> fst (snd (await_all env rest rs1)) j = fst rs1 j"
      by simp_all
    with m1 f1 s Inr show ?thesis
      by (auto intro: map_le_trans split: prod.splits sum.splits)
  qed
qed

lemma result_cached_values:
  "cached_values (snd (snd (result env t rs))) = cached_values (snd rs)"
  by (rule result_relates(1) [where R = "\<lambda>a b. cached_values b = cached_values a"])
     (simp_all add: invoke_cached_values)

lemma result_scopes: "scopes (snd (snd (result env t rs))) = scopes (snd rs)"
  by (rule result_relates(1) [where R = "\<lambda>a b. scopes b = scopes a"])
     (simp_all add: invoke_scopes)

lemma store_cached_Inr:
  assumes "store_cached st sc c v = Inr st'"
  shows "\<exists>cv. cached_values st sc = Some cv
      \<and> st' = st\<lparr>cached_values := (cached_values st)(sc \<mapsto> cv(c \<mapsto> v))\<rparr>"
  using assms by (auto simp: store_cached_def split: option.splits)

text \<open>One step of the loop of \<open>execute\<close> that ends well.\<close>

lemma cache_results_Cons_ok:
  assumes "cache_results env g (a # rest) rs = (Inr (), rs')"
  obtains (skip) "resolve_scope (snd rs) (t_scope a) = Inr Unscoped"
      "cache_results env g rest rs = (Inr (), rs')"
  | (store) sc v rs1 cv where "resolve_scope (snd rs) (t_scope a) = Inr sc" "sc \<noteq> Unscoped"
      "result env a rs = (Inr v, rs1)" "cached_values (snd rs1) sc = Some cv"
      "cache_results env g rest
         (fst rs1, (snd rs1)\<lparr>cached_values :=
            (cached_values (snd rs1))(sc \<mapsto> cv(call (g ! t_dependant a) \<mapsto> v))\<rparr>)
       = (Inr (), rs')"
proof -
  from assms obtain sc where sc: "resolve_scope (snd rs) (t_scope a) = Inr sc"
    by (cases "resolve_scope (snd rs) (t_scope a)") auto
  show ?thesis
  proof (cases "sc = Unscoped")
    case True
    with assms sc show ?thesis by (auto intro: skip)
  next
    case False
    obtain r1 rs1 where r: "result env a rs = (r1, rs1)" by (cases "result env a rs")
    with assms sc False obtain v where v: "r1 = Inr v" by (cases r1) auto
    from assms sc False r v obtain st2 where
      st: "store_cached (snd rs1) sc (call (g ! t_dependant a)) v = Inr st2"
      by (cases "store_cached (snd rs1) sc (call (g ! t_dependant a)) v") auto
    from store_cached_Inr [OF st] obtain cv where cv: "cached_values (snd rs1) sc = Some cv"
      "st2 = (snd rs1)\<lparr>cached_values :=
            (cached_values (snd rs1))(sc \<mapsto> cv(call (g ! t_dependant a) \<mapsto> v))\<rparr>"
      by blast
    from assms sc False r v st have "cache_results env g rest (fst rs1, st2) = (Inr (), rs')"
      by simp
    with sc False r v cv show ?thesis by (auto intro: store)
  qed
qed

lemma cache_results_frame:
  assumes "\<forall>t \<in> set ts. \<not> (resolve_scope (snd rs) (t_scope t) = Inr sc
      \<and> call (g ! t_dependant t) = k)"
  shows "map_option (\<lambda>cv. cv k) (cached_values (snd (snd (cache_results env g ts rs))) sc)
    = map_option (\<lambda>cv. cv k) (cached_values (snd rs) sc)"
  using assms
proof (induction ts arbitrary: rs)
  case Nil
  show ?case by simp
next
  case (Cons a rest)
  from Cons.prems have rest: "\<forall>t \<in> set rest. \<not> (resolve_scope (snd rs) (t_scope t) = Inr sc
      \<and> call (g ! t_dependant t) = k)"
    and a: "\<not> (resolve_scope (snd rs) (t_scope a) = Inr sc \<and> call (g ! t_dependant a) = k)"
    by simp_all
  show ?case
  proof (cases "resolve_scope (snd rs) (t_scope a)")
    case (Inl e)
    then show ?thesis by simp
  next
    case (Inr sca)
    note sca = Inr
    show ?thesis
    proof (cases "sca = Unscoped")
      case True
      with sca Cons.IH [OF rest] show ?thesis by simp
    next
      case False
      obtain r1 rs1 where r: "result env a rs = (r1, rs1)" by (cases "result env a rs")
      from result_cached_values [of env a rs] result_scopes [of env a rs] r
      have same: "cached_values (snd rs1) = cached_values (snd rs)" "scopes (snd rs1) = scopes (snd rs)"
        by simp_all
      show ?thesis
      proof (cases r1)
        case (Inl e)
        with sca False r same show ?thesis by simp
      next
        case (Inr v)
        note v = Inr
        show ?thesis
        proof (cases "store_cached (snd rs1) sca (call (g ! t_dependant a)) v")
          case (Inl e)
          with sca False r v same show ?thesis by simp
        next
          case (Inr st2)
          from store_cached_Inr [OF Inr] obtain cv where
            cv: "cached_values (snd rs1) sca = Some cv"
            and st2: "st2 = (snd rs1)\<lparr>cached_values :=
              (cached_values (snd rs1))(sca \<mapsto> cv(call (g ! t_dependant a) \<mapsto> v))\<rparr>"
            by blast
          from st2 same have sc2: "scopes st2 = scopes (snd rs)" by simp
          have "\<forall>t \<in> set rest. \<not> (resolve_scope (snd (fst rs1, st2)) (t_scope t) = Inr sc
              \<and> call (g ! t_dependant t) = k)"
            using rest by (simp add: resolve_scope_cong [OF sc2])
          from Cons.IH [OF this]
          have "map_option (\<lambda>cv. cv k)
              (cached_values (snd (snd (cache_results env g rest (fst rs1, st2)))) sc)
            = map_option (\<lambda>cv. cv k) (cached_values st2 sc)"
            by simp
          also have "\<dots> = map_option (\<lambda>cv. cv k) (cached_values (snd rs) sc)"
            using a sca cv same by (auto simp: st2)
          finally show ?thesis using sca False r v Inr by simp
        qed
      qed
    qed
  qed
qed

lemma cache_results_slots:
  assumes "\<forall>t \<in> set ts. wf_task t"
  shows "fst rs \<subseteq>\<^sub>m fst (snd (cache_results env g ts rs))"
  using assms
proof (induction ts arbitrary: rs)
  case Nil
  show ?case by simp
next
  case (Cons a rest)
  from Cons.prems have wa: "wf_task a" and wr: "\<forall>t \<in> set rest. wf_task t" by simp_all
  from result_slots(1) [OF wa, of rs env] have m1: "fst rs \<subseteq>\<^sub>m fst (snd (result env a rs))"
    by simp
  have step: "fst rs \<subseteq>\<^sub>m fst (snd (cache_results env g rest (fst (snd (result env a rs)), st2)))"
    for st2
    using m1 Cons.IH [OF wr, of "(fst (snd (result env a rs)), st2)"]
    by (auto intro: map_le_trans)
  show ?case
    using m1 Cons.IH [OF wr, of rs] step
    by (auto split: sum.splits prod.splits simp del: result.simps)
qed

text \<open>
  After the loop has ended well, the bucket of every scoped task of the list holds, under
  the provider of the task, the result of a task of the list with this provider and bucket.
\<close>

lemma cache_results_stores:
  assumes "cache_results env g ts rs = (Inr (), rs')" and "\<forall>t \<in> set ts. wf_task t"
    and "t \<in> set ts" and "resolve_scope (snd rs) (t_scope t) = Inr sc" and "sc \<noteq> Unscoped"
  shows "\<exists>cv w t'. cached_values (snd rs') sc = Some cv
      \<and> cv (call (g ! t_dependant t)) = Some w
      \<and> t' \<in> set ts \<and> call (g ! t_dependant t') = call (g ! t_dependant t)
      \<and> resolve_scope (snd rs) (t_scope t') = Inr sc \<and> fst rs' (t_id t') = Some w"
  using assms
proof (induction ts arbitrary: rs t)
  case Nil
  then show ?case by simp
next
  case (Cons a rest)
  let ?k = "call (g ! t_dependant t)"
  from Cons.prems(2) have wa: "wf_task a" and wr: "\<forall>t \<in> set rest. wf_task t" by simp_all
  from Cons.prems(1) show ?case
  proof (cases rule: cache_results_Cons_ok)
    case skip
    with Cons.prems(3,4,5) have "t \<in> set rest" by auto
    from Cons.IH [OF skip(2) wr this Cons.prems(4,5)] show ?thesis by auto
  next
    case (store sca v rs1 cva)
    let ?st2 = "(snd rs1)\<lparr>cached_values :=
            (cached_values (snd rs1))(sca \<mapsto> cva(call (g ! t_dependant a) \<mapsto> v))\<rparr>"
    from result_scopes [of env a rs] store(3) have sc2: "scopes ?st2 = scopes (snd rs)"
      by simp
    note rs2 = resolve_scope_cong [OF sc2]
    show ?thesis
    proof (cases "\<exists>u \<in> set rest. resolve_scope (snd rs) (t_scope u) = Inr sc
        \<and> call (g ! t_dependant u) = ?k")
      case True
      then obtain u where u: "u \<in> set rest" "resolve_scope (snd rs) (t_scope u) = Inr sc"
        "call (g ! t_dependant u) = ?k"
        by blast
      from u(2) have "resolve_scope (snd (fst rs1, ?st2)) (t_scope u) = Inr sc"
        by (simp add: rs2)
      from Cons.IH [OF store(5) wr u(1) this Cons.prems(5)]
      obtain cv w t' where "cached_values (snd rs') sc = Some cv"
        "cv (call (g ! t_dependant u)) = Some w" "t' \<in> set rest"
        "call (g ! t_dependant t') = call (g ! t_dependant u)"
        "resolve_scope ?st2 (t_scope t') = Inr sc" "fst rs' (t_id t') = Some w"
        by (auto simp: rs2)
      with u(3) show ?thesis by (auto simp: rs2)
    next
      case False
      with Cons.prems(3,4) have ta: "t = a" by auto
      with store(1) Cons.prems(4) have sca: "sca = sc" by simp
      from False have "\<forall>u \<in> set rest. \<not> (resolve_scope (snd (fst rs1, ?st2)) (t_scope u) = Inr sc
          \<and> call (g ! t_dependant u) = ?k)"
        by (simp add: rs2)
      from cache_results_frame [OF this, of env] store(5)
      have "map_option (\<lambda>cv. cv ?k) (cached_values (snd rs') sc)
          = map_option (\<lambda>cv. cv ?k) (cached_values ?st2 sc)"
        by simp
      with ta sca obtain cv where cv: "cached_values (snd rs') sc = Some cv" "cv ?k = Some v"
        by auto
      from result_memo [OF store(3)] have "fst rs1 (t_id a) = Some v" .
      moreover from cache_results_slots [OF wr, of "(fst rs1, ?st2)" env g] store(5)
      have "fst rs1 \<subseteq>\<^sub>m fst rs'" by simp
      ultimately have "fst rs' (t_id a) = Some v"
        by (auto simp: map_le_def dom_def)
      with cv ta Cons.prems(4) show ?thesis by auto
    qed
  qed
qed

lemma run_tasks_Inr:
  assumes "run_tasks env g root ts st = (Inr v, rs')"
  obtains rs1 sc st2 where "result env root (Map.empty, st) = (Inr v, rs1)"
    "resolve_scope (snd rs1) (t_scope root) = Inr sc"
    "(if sc \<noteq> Unscoped then store_cached (snd rs1) sc (call (g ! t_dependant root)) v
      else Inr (snd rs1)) = Inr st2"
    "cache_results env g ts (fst rs1, st2) = (Inr (), rs')"
proof -
  obtain r1 rs1 where r: "result env root (Map.empty, st) = (r1, rs1)"
    by (cases "result env root (Map.empty, st)")
  with assms obtain res where res: "r1 = Inr res"
    by (cases r1) (auto simp: run_tasks_def)
  from assms r res obtain sc where sc: "resolve_scope (snd rs1) (t_scope root) = Inr sc"
    by (cases "resolve_scope (snd rs1) (t_scope root)") (auto simp: run_tasks_def)
  define w where "w = (if sc \<noteq> Unscoped
                       then store_cached (snd rs1) sc (call (g ! t_dependant root)) res
                       else Inr (snd rs1))"
  from assms r res sc obtain st2 where w: "w = Inr st2"
    by (cases w) (auto simp: run_tasks_def w_def)
  obtain r3 rs3 where c: "cache_results env g ts (fst rs1, st2) = (r3, rs3)"
    by (cases "cache_results env g ts (fst rs1, st2)")
  from assms r res sc w c have "v = res \<and> rs' = rs3 \<and> r3 = Inr ()"
    by (cases r3) (auto simp: run_tasks_def w_def [symmetric])
  with r res sc w c show ?thesis
    by (intro that [of rs1 sc st2]) (auto simp: w_def split: if_splits)
qed

lemma tasks_ok_empty: "tasks_ok empty_build"
  by (simp add: tasks_ok_def cached_tasks_def empty_build_def)

text \<open>
  C9: let the build for \<open>execute\<close> return the root task and the build state \<open>bs\<close>, and let
  the run of the tasks end well with the result slots \<open>m\<close> and the state \<open>st'\<close>. Then
  \<open>execute\<close> returns the value of the root, the root is one of the tasks recorded in the task
  cache, and for every recorded task \<open>t\<close> whose scope resolves to a scope \<open>sc\<close> other than
  Unscoped, the bucket of \<open>sc\<close> holds under the provider of \<open>t\<close> the memoized result of a
  recorded task with this provider and this scope.
\<close>

theorem execute_caches_tasks:
  assumes b: "build env g st d = Inr (hit, root, bs)"
    and r: "run_tasks env g root (map snd (task_cache bs)) st = (Inr v, (m, st'))"
    and t: "t \<in> cached_tasks bs"
    and sc: "resolve_scope st (t_scope t) = Inr sc" "sc \<noteq> Unscoped"
  shows "execute env g d st = (Inr v, st') \<and> root \<in> cached_tasks bs
    \<and> m (t_id root) = Some v
    \<and> (\<exists>cv w t'. cached_values st' sc = Some cv
          \<and> cv (call (g ! t_dependant t)) = Some w
          \<and> t' \<in> cached_tasks bs \<and> call (g ! t_dependant t') = call (g ! t_dependant t)
          \<and> resolve_scope st (t_scope t') = Inr sc \<and> m (t_id t') = Some w)"
proof -
  let ?ts = "map snd (task_cache bs)"
  from build_tasks_ok(1) [OF b [unfolded build_def] tasks_ok_empty]
  have ok: "tasks_ok bs" and root: "root \<in> cached_tasks bs" by simp_all
  have ts: "set ?ts = cached_tasks bs" by (simp add: cached_tasks_def)
  with ok have wf: "\<forall>t \<in> set ?ts. wf_task t" by (simp add: tasks_ok_def)
  from r obtain rs1 sc0 st2 where
    1: "result env root (Map.empty, st) = (Inr v, rs1)"
    and 3: "(if sc0 \<noteq> Unscoped then store_cached (snd rs1) sc0 (call (g ! t_dependant root)) v
      else Inr (snd rs1)) = Inr st2"
    and 4: "cache_results env g ?ts (fst rs1, st2) = (Inr (), (m, st'))"
    by (rule run_tasks_Inr)
  from result_scopes [of env root "(Map.empty, st)"] 1 have "scopes (snd rs1) = scopes st"
    by simp
  with 3 have sc2: "scopes st2 = scopes st"
    by (auto dest!: store_cached_Inr split: if_splits)
  note rs2 = resolve_scope_cong [OF sc2]
  from t ts have "t \<in> set ?ts" by simp
  moreover from sc(1) have "resolve_scope (snd (fst rs1, st2)) (t_scope t) = Inr sc"
    by (simp add: rs2)
  ultimately have "\<exists>cv w t'. cached_values (snd (m, st')) sc = Some cv
      \<and> cv (call (g ! t_dependant t)) = Some w
      \<and> t' \<in> set ?ts \<and> call (g ! t_dependant t') = call (g ! t_dependant t)
      \<and> resolve_scope (snd (fst rs1, st2)) (t_scope t') = Inr sc
      \<and> fst (m, st') (t_id t') = Some w"
    using sc(2) by (intro cache_results_stores [OF 4 wf])
  then have stored: "\<exists>cv w t'. cached_values st' sc = Some cv
          \<and> cv (call (g ! t_dependant t)) = Some w
          \<and> t' \<in> cached_tasks bs \<and> call (g ! t_dependant t') = call (g ! t_dependant t)
          \<and> resolve_scope st (t_scope t') = Inr sc \<and> m (t_id t') = Some w"
    unfolding ts by (simp add: rs2)
  from result_memo [OF 1] have "fst rs1 (t_id root) = Some v" .
  moreover from cache_results_slots [OF wf, of "(fst rs1, st2)" env g] 4
  have "fst rs1 \<subseteq>\<^sub>m m" by simp
  ultimately have "m (t_id root) = Some v"
    by (auto simp: map_le_def dom_def)
  moreover from b r have "execute env g d st = (Inr v, st')"
    by (simp add: execute_def)
  ultimately show ?thesis using root stored by blast
qed

section \<open>The recursion bound of the builder\<close>

lemma resolve_scope_error: "resolve_scope st tag = Inl e \<Longrightarrow> e = UnknownScopeError"
  by (auto simp: resolve_scope_def split: if_splits)

lemma check_scope_error: "check_scope st sc = Inl e \<Longrightarrow> e = UnknownScopeError"
  by (auto simp: check_scope_def split: if_splits)

lemma stack_for_error: "stack_for st sc = Inl e \<Longrightarrow> e = IndexError \<or> e = KeyError"
  by (auto simp: stack_for_def split: if_splits)

lemma find_cached_error: "find_cached st ss c = Inl e \<Longrightarrow> e = KeyError"
  by (induction ss) (auto split: option.splits)

lemma finish_task_error:
  "finish_task g st d sc task_scope c allow_cache subtasks bs = Inl e \<Longrightarrow> e = KeyError"
  by (auto simp: finish_task_def Let_def split: sum.splits option.splits if_splits
      dest: find_cached_error)

lemma build_task_OutOfFuel:
  assumes "build_task (Suc n) env g st d bs = Inl OutOfFuel"
  obtains task_scope d2 bs2 where "d \<notin> seen bs"
    "resolve_scope st (scope (g ! d)) = Inr task_scope"
    "substitute g st task_scope d (bs\<lparr>seen := insert d (seen bs)\<rparr>) = (d2, bs2)"
    "build_subtasks n env g st (dependencies (g ! d2)) True [] bs2 = Inl OutOfFuel"
proof -
  from assms have s: "d \<notin> seen bs" by (auto simp: build_task.simps split: if_splits)
  from assms s obtain task_scope where ts: "resolve_scope st (scope (g ! d)) = Inr task_scope"
    by (cases "resolve_scope st (scope (g ! d))")
       (auto simp: build_task.simps dest: resolve_scope_error)
  obtain d2 bs2 where sub:
    "substitute g st task_scope d (bs\<lparr>seen := insert d (seen bs)\<rparr>) = (d2, bs2)"
    by (cases "substitute g st task_scope d (bs\<lparr>seen := insert d (seen bs)\<rparr>)")
  from assms s ts sub have "build_subtasks n env g st (dependencies (g ! d2)) True [] bs2
      = Inl OutOfFuel"
    by (auto simp: build_task.simps split: option.splits sum.splits
        dest: resolve_scope_error check_scope_error stack_for_error finish_task_error)
  with s ts sub show ?thesis by (rule that)
qed

lemma substitute_cases:
  assumes "substitute g st sc d bs = (d2, bs2)"
  shows "d2 = d \<or> d2 \<in> ran (binds st) \<or> d2 \<in> ran (call_cache bs)"
    and "ran (call_cache bs2) \<subseteq> insert d (ran (binds st) \<union> ran (call_cache bs))"
    and "ran (call_cache bs) \<subseteq> ran (call_cache bs2)"
proof -
  define d1 where "d1 = (case binds st (call (g ! d)) of Some b \<Rightarrow> b | None \<Rightarrow> d)"
  have d1: "d1 = d \<or> d1 \<in> ran (binds st)"
    by (auto simp: d1_def ran_def split: option.splits)
  from assms have sub: "(d2, bs2) = (if sc \<noteq> Unscoped then
           (case call_cache bs (call (g ! d1)) of
              Some c \<Rightarrow> (c, bs)
            | None \<Rightarrow> (d1, bs\<lparr>call_cache := (call_cache bs)(call (g ! d1) \<mapsto> d1)\<rparr>))
         else (d1, bs))"
    unfolding substitute_def d1_def Let_def by simp
  then have "d2 = d1 \<or> d2 \<in> ran (call_cache bs)"
    by (auto simp: ran_def split: if_splits option.splits)
  with d1 show "d2 = d \<or> d2 \<in> ran (binds st) \<or> d2 \<in> ran (call_cache bs)"
    by blast
  from sub have "ran (call_cache bs2) \<subseteq> insert d1 (ran (call_cache bs))"
    by (auto simp: ran_def split: if_splits option.splits)
  with d1 show "ran (call_cache bs2) \<subseteq> insert d (ran (binds st) \<union> ran (call_cache bs))"
    by blast
  from sub show "ran (call_cache bs) \<subseteq> ran (call_cache bs2)"
    by (auto simp: ran_map_upd split: if_splits option.splits)
qed

lemma wf_graph_deps:
  "wf_graph g \<Longrightarrow> d < length g \<Longrightarrow> kn \<in> set (dependencies (g ! d)) \<Longrightarrow> snd kn < length g"
  by (auto simp: wf_graph_def list_all_iff)

text \<open>
  What a successful build leaves in \<open>seen\<close> and in the call cache: the description that was
  built is seen, nothing is forgotten, and the call cache refers to descriptions of the
  store only.
\<close>

lemma build_mono:
  "wf_graph g \<Longrightarrow> ran (binds st) \<subseteq> {..<length g}
      \<Longrightarrow> build_task fuel env g st d bs = Inr (hit, t, bs') \<Longrightarrow> d < length g
      \<Longrightarrow> ran (call_cache bs) \<subseteq> {..<length g}
      \<Longrightarrow> insert d (seen bs) \<subseteq> seen bs' \<and> ran (call_cache bs') \<subseteq> {..<length g}"
  "wf_graph g \<Longrightarrow> ran (binds st) \<subseteq> {..<length g}
      \<Longrightarrow> build_subtasks fuel env g st items allow_cache subtasks bs
        = Inr (allow_cache', subtasks', bs')
      \<Longrightarrow> \<forall>kn \<in> set items. snd kn < length g
      \<Longrightarrow> ran (call_cache bs) \<subseteq> {..<length g}
      \<Longrightarrow> snd ` set items \<union> seen bs \<subseteq> seen bs' \<and> ran (call_cache bs') \<subseteq> {..<length g}"
proof (induction fuel env g st d bs and fuel env g st items allow_cache subtasks bs
    arbitrary: hit t bs' and allow_cache' subtasks' bs'
    rule: build_task_build_subtasks.induct)
  case (1 env g st d bs)
  then show ?case by (simp add: build_task.simps)
next
  case (2 n env g st d bs)
  note wf = "2.prems"(1) and bd = "2.prems"(2) and d = "2.prems"(4) and cc = "2.prems"(5)
  from "2.prems"(3) show ?case
  proof (cases rule: build_task_Inr_cases)
    case (cached n' task_scope d2)
    from substitute_fields(2) [OF cached(4)] have "seen bs' = insert d (seen bs)" by simp
    moreover from substitute_cases(2) [OF cached(4)] bd d cc
    have "ran (call_cache bs') \<subseteq> {..<length g}" by auto
    ultimately show ?thesis by simp
  next
    case (built n' task_scope d2 bs2 sc stack allow_cache subtasks bs3)
    from built(1) have n: "n' = n" by simp
    from substitute_fields(2) [OF built(4)] have s2: "seen bs2 = insert d (seen bs)" by simp
    from substitute_cases(2) [OF built(4)] bd d cc
    have cc2: "ran (call_cache bs2) \<subseteq> {..<length g}" by auto
    from substitute_cases(1) [OF built(4)] bd d cc have d2: "d2 < length g" by auto
    with wf have items: "\<forall>kn \<in> set (dependencies (g ! d2)). snd kn < length g"
      by (auto dest: wf_graph_deps)
    from "2.IH" [OF built(2) built(3) built(4) [symmetric] built(5) built(6) built(7)
        built(8) wf bd built(9) [unfolded n] items cc2]
    have "seen bs2 \<subseteq> seen bs3" and cc3: "ran (call_cache bs3) \<subseteq> {..<length g}"
      by simp_all
    with s2 finish_task_Inr(1) [OF built(10)] show ?thesis by simp
  qed
next
  case (3 n env g st allow_cache subtasks bs)
  then show ?case by (simp add: build_subtasks.simps)
next
  case (4 n env g st item rest allow_cache subtasks bs)
  note wf = "4.prems"(1) and bd = "4.prems"(2) and cc = "4.prems"(5)
  from "4.prems"(4) have item: "snd item < length g"
    and rest: "\<forall>kn \<in> set rest. snd kn < length g"
    by simp_all
  from "4.prems"(3) obtain ac1 subtask bs1 where
    b: "build_task n env g st (snd item) bs = Inr (ac1, subtask, bs1)"
    and r: "build_subtasks n env g st rest ac1 (AList.update (fst item) subtask subtasks)
       (bs1\<lparr>task_cache := AList.update (snd item) subtask (task_cache bs1)\<rparr>)
       = Inr (allow_cache', subtasks', bs')"
    by (rule build_subtasks_Cons_Inr)
  from "4.IH"(1) [OF wf bd b item cc]
  have s1: "insert (snd item) (seen bs) \<subseteq> seen bs1"
    and cc1: "ran (call_cache bs1) \<subseteq> {..<length g}"
    by simp_all
  from "4.IH"(2) [OF b refl refl wf bd r rest] cc1
  have "snd ` set rest \<union> seen bs1 \<subseteq> seen bs'" and "ran (call_cache bs') \<subseteq> {..<length g}"
    by simp_all
  with s1 show ?case by auto
qed

lemma build_fuel:
  "wf_graph g \<Longrightarrow> ran (binds st) \<subseteq> {..<length g}
      \<Longrightarrow> d < length g \<Longrightarrow> ran (call_cache bs) \<subseteq> {..<length g}
      \<Longrightarrow> card ({..<length g} - seen bs) < fuel
      \<Longrightarrow> build_task fuel env g st d bs \<noteq> Inl OutOfFuel"
  "wf_graph g \<Longrightarrow> ran (binds st) \<subseteq> {..<length g}
      \<Longrightarrow> \<forall>kn \<in> set items. snd kn < length g \<Longrightarrow> ran (call_cache bs) \<subseteq> {..<length g}
      \<Longrightarrow> card ({..<length g} - seen bs) < fuel
      \<Longrightarrow> build_subtasks fuel env g st items allow_cache subtasks bs \<noteq> Inl OutOfFuel"
proof (induction fuel env g st d bs and fuel env g st items allow_cache subtasks bs
    rule: build_task_build_subtasks.induct)
  case (1 env g st d bs)
  then show ?case by simp
next
  case (2 n env g st d bs)
  note wf = "2.prems"(1) and bd = "2.prems"(2) and d = "2.prems"(3) and cc = "2.prems"(4)
  show ?case
  proof
    assume "build_task (Suc n) env g st d bs = Inl OutOfFuel"
    then obtain task_scope d2 bs2 where s: "d \<notin> seen bs"
      and ts: "resolve_scope st (scope (g ! d)) = Inr task_scope"
      and sub: "substitute g st task_scope d (bs\<lparr>seen := insert d (seen bs)\<rparr>) = (d2, bs2)"
      and out: "build_subtasks n env g st (dependencies (g ! d2)) True [] bs2 = Inl OutOfFuel"
      by (rule build_task_OutOfFuel)
    from substitute_fields(2) [OF sub] have s2: "seen bs2 = insert d (seen bs)" by simp
    from substitute_cases(2) [OF sub] bd d cc
    have cc2: "ran (call_cache bs2) \<subseteq> {..<length g}" by auto
    from substitute_cases(1) [OF sub] bd d cc have d2: "d2 < length g" by auto
    with wf have items: "\<forall>kn \<in> set (dependencies (g ! d2)). snd kn < length g"
      by (auto dest: wf_graph_deps)
    have "{..<length g} - seen bs2 = ({..<length g} - seen bs) - {d}"
      using s2 by auto
    moreover from s d have "d \<in> {..<length g} - seen bs" by simp
    then have "card ({..<length g} - seen bs - {d}) < card ({..<length g} - seen bs)"
      by (intro card_Diff1_less) auto
    ultimately have "card ({..<length g} - seen bs2) < card ({..<length g} - seen bs)"
      by simp
    with "2.prems"(5) have fuel: "card ({..<length g} - seen bs2) < n" by simp
    have "map_of (task_cache bs2) d2 = None"
    proof (rule ccontr)
      assume "map_of (task_cache bs2) d2 \<noteq> None"
      with \<open>build_task (Suc n) env g st d bs = Inl OutOfFuel\<close> s ts sub show False
        by (auto simp: build_task.simps)
    qed
    moreover obtain sc where sc: "resolve_scope st (scope (g ! d2)) = Inr sc"
      using \<open>build_task (Suc n) env g st d bs = Inl OutOfFuel\<close> s ts sub calculation
      by (cases "resolve_scope st (scope (g ! d2))")
         (auto simp: build_task.simps dest: resolve_scope_error)
    moreover have ch: "check_scope st sc = Inr ()"
      using \<open>build_task (Suc n) env g st d bs = Inl OutOfFuel\<close> s ts sub calculation
      by (cases "check_scope st sc") (auto simp: build_task.simps dest: check_scope_error)
    moreover obtain stack where "stack_for st sc = Inr stack"
      using \<open>build_task (Suc n) env g st d bs = Inl OutOfFuel\<close> s ts sub calculation
      by (cases "stack_for st sc") (auto simp: build_task.simps dest: stack_for_error)
    ultimately have "build_subtasks n env g st (dependencies (g ! d2)) True [] bs2
        \<noteq> Inl OutOfFuel"
      using "2.IH" [OF s ts sub [symmetric] _ _ _ _ wf bd items cc2 fuel] by blast
    with out show False by contradiction
  qed
next
  case (3 n env g st allow_cache subtasks bs)
  show ?case by (simp add: build_subtasks.simps)
next
  case (4 n env g st item rest allow_cache subtasks bs)
  note wf = "4.prems"(1) and bd = "4.prems"(2) and cc = "4.prems"(4)
  from "4.prems"(3) have item: "snd item < length g"
    and rest: "\<forall>kn \<in> set rest. snd kn < length g"
    by simp_all
  from "4.IH"(1) [OF wf bd item cc "4.prems"(5)]
  have nb: "build_task n env g st (snd item) bs \<noteq> Inl OutOfFuel" .
  show ?case
  proof (cases "build_task n env g st (snd item) bs")
    case (Inl e)
    with nb show ?thesis by (auto simp: build_subtasks.simps)
  next
    case (Inr res)
    then obtain ac1 subtask bs1 where
      b: "build_task n env g st (snd item) bs = Inr (ac1, subtask, bs1)"
      by (cases res) auto
    from build_mono(1) [OF wf bd b item cc]
    have s1: "seen bs \<subseteq> seen bs1" and cc1: "ran (call_cache bs1) \<subseteq> {..<length g}"
      by auto
    from s1 have "{..<length g} - seen bs1 \<subseteq> {..<length g} - seen bs" by auto
    then have "card ({..<length g} - seen bs1) \<le> card ({..<length g} - seen bs)"
      by (intro card_mono) auto
    with "4.prems"(5) have fuel: "card ({..<length g} - seen bs1) < n" by simp
    let ?bs1 = "bs1\<lparr>task_cache := AList.update (snd item) subtask (task_cache bs1)\<rparr>"
    from "4.IH"(2) [OF b refl refl wf bd rest] cc1 fuel
    have "build_subtasks n env g st rest ac1 (AList.update (fst item) subtask subtasks) ?bs1
        \<noteq> Inl OutOfFuel"
      by simp
    with b show ?thesis by (simp add: build_subtasks.simps)
  qed
qed

lemma build_never_out_of_fuel:
  assumes "wf_graph g" and "ran (binds st) \<subseteq> {..<length g}" and "d < length g"
  shows "build env g st d \<noteq> Inl OutOfFuel"
  unfolding build_def
  by (rule build_fuel(1) [OF assms(1,2,3)]) (simp_all add: empty_build_def)


theorem execute_caches_tasks_witness:
  "\<exists>hit root bs v m st'.
     build ex_env chain_graph app_state 0 = Inr (hit, root, bs)
     \<and> run_tasks ex_env chain_graph root (map snd (task_cache bs)) app_state = (Inr v, (m, st'))
     \<and> Task 0 1 (ScopeId 1) (AsIs 1) [] \<in> cached_tasks bs
     \<and> resolve_scope app_state (t_scope (Task 0 1 (ScopeId 1) (AsIs 1) [])) = Inr (ScopeId 1)
     \<and> execute ex_env chain_graph 0 app_state = (Inr v, st')
     \<and> v = 0
     \<and> (\<exists>cv. cached_values st' (ScopeId 1) = Some cv \<and> cv 1 = Some 100 \<and> cv 0 = Some 0)"
proof -
  let ?b = "build ex_env chain_graph app_state 0"
  let ?t = "Task 0 1 (ScopeId 1) (AsIs 1) []"
  have "isl ?b = False" by code_simp
  then obtain hit root bs where b: "?b = Inr (hit, root, bs)"
    by (cases ?b) auto
  then have p: "fst (snd (projr ?b)) = root" "snd (snd (projr ?b)) = bs" by simp_all
  have "?t \<in> cached_tasks (snd (snd (projr ?b)))"
    unfolding cached_tasks_def by code_simp
  with p have t: "?t \<in> cached_tasks bs" by simp
  have "fst (run_tasks ex_env chain_graph (fst (snd (projr ?b)))
      (map snd (task_cache (snd (snd (projr ?b))))) app_state) = Inr 0"
    by code_simp
  with p obtain m st' where
    r: "run_tasks ex_env chain_graph root (map snd (task_cache bs)) app_state = (Inr 0, (m, st'))"
    by (cases "run_tasks ex_env chain_graph root (map snd (task_cache bs)) app_state") auto
  have sc: "resolve_scope app_state (t_scope ?t) = Inr (ScopeId 1)"
    by (simp add: resolve_scope_def)
  from execute_caches_tasks [OF b r t sc]
  have e: "execute ex_env chain_graph 0 app_state = (Inr 0, st')"
    and "\<exists>cv w. cached_values st' (ScopeId 1) = Some cv
        \<and> cv (call (chain_graph ! t_dependant ?t)) = Some w"
    by auto
  then obtain cv where cv: "cached_values st' (ScopeId 1) = Some cv"
    by blast
  have "map_option (\<lambda>cv. (cv 1, cv 0))
      (cached_values (snd (execute ex_env chain_graph 0 app_state)) (ScopeId 1))
      = Some (Some 100, Some 0)"
    by code_simp
  with e cv have "cv 1 = Some 100 \<and> cv 0 = Some 0" by simp
  with b r t sc e cv show ?thesis by blast
qed

end
